theory Spec2Isabelle
  imports Main
begin

section \<open>Data model of the columnar table\<close>

text \<open>
  The class template \<open>Columnar<ColumnTypes...>\<close> keeps one \<open>std::vector\<close> per declared
  column type, an array of column names and a row counter. The private members
  \<open>columns_\<close>, \<open>names_\<close> and \<open>row_count_\<close> are written here without the trailing
  underscore, which an Isabelle name cannot end with.
\<close>

datatype CsvError =
  FileNotFound | ParseError | InvalidFormat | ColumnNotFound | RowIndexOutOfBounds

text \<open>
  The concept \<open>ColumnType\<close> admits integral types, floating-point types and
  \<open>std::string\<close>. A type is the C++ type itself, as \<open>std::is_same_v\<close> compares it:
  \<open>long\<close> and \<open>long long\<close> are two types also where they have the same width, and so
  are \<open>char\<close> and \<open>signed char\<close>. The integral types are those \<open>std::from_chars\<close> is
  declared for, which are the ones a table can be loaded with.
\<close>

datatype IntegralType =
  T_char | T_signed_char | T_unsigned_char | T_short | T_unsigned_short | T_int |
  T_unsigned_int | T_long | T_unsigned_long | T_long_long | T_unsigned_long_long

datatype FloatType = Float | Double | LongDouble

datatype ColumnType = Integral IntegralType | FloatingPoint FloatType | StdString

text \<open>
  A stored element. The values of the floating-point types are kept abstract (type
  variable \<open>'f\<close>): the code only stores, copies and hands them to the caller's predicate.
\<close>

datatype 'f Value = IntV int | FloatV 'f | StrV string

fun has_type :: "ColumnType \<Rightarrow> 'f Value \<Rightarrow> bool" where
  "has_type (Integral it) (IntV i) = True"
| "has_type (FloatingPoint ft) (FloatV x) = True"
| "has_type StdString (StrV s) = True"
| "has_type T v = False"

text \<open>
  \<open>ColumnTypes\<close> is the template parameter pack; it is a field of the record so that a
  table carries its schema. \<open>size_t\<close> counters are natural numbers: no counter of the
  code can exceed the number of bytes of the input.
\<close>

record 'f Columnar =
  ColumnTypes :: "ColumnType list"
  columns :: "'f Value list list"
  names :: "string list"
  row_count :: nat

definition kColumnCount :: "'f Columnar \<Rightarrow> nat" where
  "kColumnCount t = length (ColumnTypes t)"

definition num_rows :: "'f Columnar \<Rightarrow> nat" where
  "num_rows t = row_count t"

definition num_cols :: "'f Columnar \<Rightarrow> nat" where
  "num_cols t = kColumnCount t"

definition column_names :: "'f Columnar \<Rightarrow> string list" where
  "column_names t = names t"

text \<open>
  The default-constructed object \<open>Columnar<ColumnTypes...> result;\<close>: empty vectors,
  empty names, \<open>row_count_{0}\<close>.
\<close>

definition default_Columnar :: "ColumnType list \<Rightarrow> 'f Columnar" where
  "default_Columnar tys =
     \<lparr>ColumnTypes = tys, columns = replicate (length tys) [],
      names = replicate (length tys) [], row_count = 0\<rparr>"

text \<open>
  What the C++ types guarantee (as many vectors and names as declared types, elements of
  the declared type) together with what the member functions maintain (every vector has
  \<open>row_count_\<close> elements). Indexing a vector or a span beyond its size is undefined in
  the source; under this invariant no function below does so.
\<close>

definition table_inv :: "'f Columnar \<Rightarrow> bool" where
  "table_inv t \<longleftrightarrow>
     length (names t) = kColumnCount t \<and>
     list_all2 (\<lambda>T column. length column = row_count t \<and> list_all (has_type T) column)
       (ColumnTypes t) (columns t)"

section \<open>Accessor layer\<close>

text \<open>
  A \<open>std::span<const T>\<close> owns no elements: it is a pointer into a vector of the table
  and a size. The pointer is modelled by the position of the vector it points into, and
  an element is read through the table (\<open>span_at\<close>).
\<close>

record span =
  span_data :: nat
  span_size :: nat

definition span_at :: "'f Columnar \<Rightarrow> span \<Rightarrow> nat \<Rightarrow> 'f Value" where
  "span_at t sp i = columns t ! span_data sp ! i"

definition span_contents :: "'f Columnar \<Rightarrow> span \<Rightarrow> 'f Value list" where
  "span_contents t sp = map (span_at t sp) [0..<span_size sp]"

text \<open>\<open>get_column_view<I>()\<close>; \<open>I < kColumnCount\<close> is a \<open>static_assert\<close>.\<close>

definition get_column_view_at :: "'f Columnar \<Rightarrow> nat \<Rightarrow> span" where
  "get_column_view_at t I = \<lparr>span_data = I, span_size = length (columns t ! I)\<rparr>"

text \<open>
  \<open>std::find\<close> over \<open>names_\<close>, as the distance of the returned iterator from
  \<open>begin()\<close>; the end iterator is the length of the array.
\<close>

fun std_find :: "string list \<Rightarrow> string \<Rightarrow> nat" where
  "std_find [] name = 0"
| "std_find (x # xs) name = (if x = name then 0 else Suc (std_find xs name))"

text \<open>
  The fold expression over the index sequence in \<open>get_column_view<T>(name)\<close>: the first
  \<open>Is\<close> equal to \<open>index\<close> ends the fold, and assigns the view only when \<open>T\<close> is the
  column's type.
\<close>

fun view_fold ::
  "'f Columnar \<Rightarrow> ColumnType \<Rightarrow> nat \<Rightarrow> (nat \<times> ColumnType) list \<Rightarrow> CsvError + span
     \<Rightarrow> CsvError + span" where
  "view_fold t T index [] result = result"
| "view_fold t T index ((Is, ColumnT) # rest) result =
     (if Is = index
      then (if T = ColumnT then Inr (get_column_view_at t Is) else result)
      else view_fold t T index rest result)"

definition get_column_view :: "'f Columnar \<Rightarrow> ColumnType \<Rightarrow> string \<Rightarrow> CsvError + span" where
  "get_column_view t T name =
     (let index = std_find (names t) name in
      if index = length (names t) then Inl ColumnNotFound
      else
        let result = view_fold t T index (zip [0..<kColumnCount t] (ColumnTypes t))
                       (Inl ColumnNotFound)
        in if result = Inl ColumnNotFound then Inl ParseError else result)"

definition get_row :: "'f Columnar \<Rightarrow> nat \<Rightarrow> CsvError + 'f Value list" where
  "get_row t index =
     (if index \<ge> row_count t then Inl RowIndexOutOfBounds
      else Inr (map (\<lambda>column. column ! index) (columns t)))"

section \<open>Filter engine\<close>

text \<open>The loop \<open>for (size_t i = 0; i < row_count_; ++i)\<close> collecting \<open>indices_to_keep\<close>.\<close>

function keep_loop :: "(nat \<Rightarrow> bool) \<Rightarrow> nat \<Rightarrow> nat \<Rightarrow> nat list \<Rightarrow> nat list" where
  "keep_loop keep i n indices_to_keep =
     (if i < n
      then keep_loop keep (Suc i) n (if keep i then indices_to_keep @ [i] else indices_to_keep)
      else indices_to_keep)"
  by pat_completeness auto
termination
  by (relation "measure (\<lambda>(keep, i, n, acc). n - i)") auto

declare keep_loop.simps [simp del]

definition filter_Columnar ::
  "'f Columnar \<Rightarrow> ColumnType \<Rightarrow> string \<Rightarrow> ('f Value \<Rightarrow> bool) \<Rightarrow> CsvError + 'f Columnar" where
  "filter_Columnar t T column_name predicate =
     (case get_column_view t T column_name of
        Inl e \<Rightarrow> Inl e
      | Inr column_to_filter \<Rightarrow>
          let indices_to_keep =
                keep_loop (\<lambda>i. predicate (span_at t column_to_filter i)) 0 (row_count t) []
          in Inr \<lparr>ColumnTypes = ColumnTypes t,
                  columns = map (\<lambda>src_column. map (\<lambda>idx. src_column ! idx) indices_to_keep)
                              (columns t),
                  names = names t,
                  row_count = length indices_to_keep\<rparr>)"

text \<open>The rows of a table, each as \<open>get_row\<close> materialises it, in index order.\<close>

definition table_rows :: "'f Columnar \<Rightarrow> 'f Value list list" where
  "table_rows t = map (\<lambda>index. map (\<lambda>column. column ! index) (columns t)) [0..<row_count t]"

section \<open>Input streams\<close>

text \<open>
  \<open>std::ifstream\<close> and \<open>std::istringstream\<close> are modelled by the characters not yet
  read and the two state bits the code can observe. Characters are bytes; the file is
  read as it is stored (no translation of line endings).
\<close>

record istream =
  buf :: string
  eofbit :: bool
  failbit :: bool

definition open_stream :: "string \<Rightarrow> istream" where
  "open_stream s = \<lparr>buf = s, eofbit = False, failbit = False\<rparr>"

definition good :: "istream \<Rightarrow> bool" where
  "good strm \<longleftrightarrow> \<not> eofbit strm \<and> \<not> failbit strm"

text \<open>
  \<open>std::getline(strm, str, delim)\<close>. On a stream that is not good the sentry sets
  \<open>failbit\<close> and nothing is read. Otherwise characters are taken up to the delimiter,
  which is extracted and dropped, or up to the end of input, which sets \<open>eofbit\<close>; when
  nothing at all was extracted \<open>failbit\<close> is set. The second component is the string
  read when the returned stream converts to \<open>true\<close>, and \<open>None\<close> when it converts to
  \<open>false\<close>.
\<close>

definition getline :: "istream \<Rightarrow> char \<Rightarrow> istream \<times> string option" where
  "getline strm delim =
     (if \<not> good strm then (strm\<lparr>failbit := True\<rparr>, None)
      else
        let str = takeWhile (\<lambda>c. c \<noteq> delim) (buf strm)
        in case dropWhile (\<lambda>c. c \<noteq> delim) (buf strm) of
             [] \<Rightarrow>
               if str = [] then (strm\<lparr>buf := [], eofbit := True, failbit := True\<rparr>, None)
               else (strm\<lparr>buf := [], eofbit := True\<rparr>, Some str)
           | d # rest \<Rightarrow> (strm\<lparr>buf := rest\<rparr>, Some str))"

text \<open>\<open>isspace\<close> in the classic locale: space, and the controls \<open>\t \n \v \f \r\<close>.\<close>

definition isspace :: "char \<Rightarrow> bool" where
  "isspace c \<longleftrightarrow> c \<in> {CHR '' '', CHR 0x09, CHR 0x0A, CHR 0x0B, CHR 0x0C, CHR 0x0D}"

text \<open>
  \<open>strm >> str\<close> for a \<open>std::string\<close>: leading white space is skipped, then characters
  are taken up to the next white space or the end of input.
\<close>

definition extract_string :: "istream \<Rightarrow> istream \<times> string option" where
  "extract_string strm =
     (if \<not> good strm then (strm\<lparr>failbit := True\<rparr>, None)
      else
        case dropWhile isspace (buf strm) of
          [] \<Rightarrow> (strm\<lparr>buf := [], eofbit := True, failbit := True\<rparr>, None)
        | c # cs \<Rightarrow>
            let str = takeWhile (\<lambda>c. \<not> isspace c) (c # cs);
                rest = dropWhile (\<lambda>c. \<not> isspace c) (c # cs)
            in (strm\<lparr>buf := rest, eofbit := (rest = [])\<rparr>, Some str))"

section \<open>Parsing one field\<close>

definition isdigit :: "char \<Rightarrow> bool" where
  "isdigit c \<longleftrightarrow> c \<in> set ''0123456789''"

definition isxdigit :: "char \<Rightarrow> bool" where
  "isxdigit c \<longleftrightarrow> c \<in> set ''0123456789abcdefABCDEF''"

definition digit_value :: "char \<Rightarrow> int" where
  "digit_value c = of_char c - 48"

definition decimal_value :: "string \<Rightarrow> int" where
  "decimal_value ds = foldl (\<lambda>n c. 10 * n + digit_value c) 0 ds"

text \<open>
  \<open>std::from_chars\<close> for an integral type in base 10, from the C++ standard: an optional
  minus sign (for a signed type only), then the longest run of digits; no white space,
  no plus sign. The result is the number of characters consumed, the error code, and
  the value, which stays as it was (zero) unless the conversion succeeds.
\<close>

datatype errc = errc_ok | invalid_argument | result_out_of_range

definition representable :: "bool \<Rightarrow> nat \<Rightarrow> int \<Rightarrow> bool" where
  "representable sg w v \<longleftrightarrow>
     (if sg then - (2 ^ (w - 1)) \<le> v \<and> v < 2 ^ (w - 1) else 0 \<le> v \<and> v < 2 ^ w)"

definition from_chars :: "bool \<Rightarrow> nat \<Rightarrow> string \<Rightarrow> nat \<times> errc \<times> int" where
  "from_chars sg w str =
     (let neg = (sg \<and> take 1 str = ''-'');
          ds = takeWhile isdigit (if neg then drop 1 str else str);
          v = (if neg then - decimal_value ds else decimal_value ds);
          ptr = (if neg then 1 else 0) + length ds
      in if ds = [] then (0, invalid_argument, 0)
         else if representable sg w v then (ptr, errc_ok, v)
         else (ptr, result_out_of_range, 0))"

text \<open>
  \<open>strtod\<close>, \<open>strtof\<close> and \<open>strtold\<close> are library functions. Which characters they
  consume is modelled from ISO C (7.22.1.3, classic locale): leading white space is
  skipped, and the subject sequence is the longest initial part of what follows that is
  of the expected form: an optional sign, then a decimal numeral with optional exponent,
  a hexadecimal floating numeral, \<open>INF\<close> or \<open>INFINITY\<close>, or \<open>NAN\<close> with an optional
  parenthesised character sequence (letters in any case). The functions below measure
  how far each kind of numeral reaches at the start of a string.
\<close>

definition sign_len :: "string \<Rightarrow> nat" where
  "sign_len s = (if take 1 s = ''+'' \<or> take 1 s = ''-'' then 1 else 0)"

fun ci_prefix :: "string \<Rightarrow> string \<Rightarrow> string \<Rightarrow> bool" where
  "ci_prefix (l # ls) (u # us) (c # cs) = ((c = l \<or> c = u) \<and> ci_prefix ls us cs)"
| "ci_prefix (l # ls) (u # us) [] = False"
| "ci_prefix ls us cs = True"

definition exponent_len :: "string \<Rightarrow> string \<Rightarrow> nat" where
  "exponent_len marker s =
     (case s of
        [] \<Rightarrow> 0
      | c # r \<Rightarrow>
          if c \<in> set marker
          then (let sg = sign_len r; ds = takeWhile isdigit (drop sg r)
                in if ds = [] then 0 else 1 + sg + length ds)
          else 0)"

definition mantissa_len :: "(char \<Rightarrow> bool) \<Rightarrow> string \<Rightarrow> nat \<times> bool" where
  "mantissa_len dig s =
     (let ip = takeWhile dig s
      in case dropWhile dig s of
           [] \<Rightarrow> (length ip, ip \<noteq> [])
         | c # r \<Rightarrow>
             if c = CHR ''.''
             then (let fp = takeWhile dig r in (length ip + 1 + length fp, ip \<noteq> [] \<or> fp \<noteq> []))
             else (length ip, ip \<noteq> []))"

definition decimal_len :: "string \<Rightarrow> nat" where
  "decimal_len s =
     (case mantissa_len isdigit s of
        (m, ok) \<Rightarrow> if ok then m + exponent_len ''eE'' (drop m s) else 0)"

definition hex_len :: "string \<Rightarrow> nat" where
  "hex_len s =
     (if ci_prefix ''0x'' ''0X'' s
      then (case mantissa_len isxdigit (drop 2 s) of
              (m, ok) \<Rightarrow> if ok then 2 + m + exponent_len ''pP'' (drop (2 + m) s) else 0)
      else 0)"

definition inf_len :: "string \<Rightarrow> nat" where
  "inf_len s =
     (if ci_prefix ''infinity'' ''INFINITY'' s then 8
      else if ci_prefix ''inf'' ''INF'' s then 3 else 0)"

definition nan_char :: "char \<Rightarrow> bool" where
  "nan_char c \<longleftrightarrow>
     c \<in> set ''0123456789_abcdefghijklmnopqrstuvwxyzABCDEFGHIJKLMNOPQRSTUVWXYZ''"

definition nan_len :: "string \<Rightarrow> nat" where
  "nan_len s =
     (if ci_prefix ''nan'' ''NAN'' s
      then (let r = drop 3 s; n = length (takeWhile nan_char (drop 1 r))
            in if take 1 r = ''('' \<and> take 1 (drop (1 + n) r) = '')'' then 3 + n + 2 else 3)
      else 0)"

definition subject_form :: "string \<Rightarrow> bool" where
  "subject_form s \<longleftrightarrow>
     (let r = drop (sign_len s) s
      in r \<noteq> [] \<and>
         (decimal_len r = length r \<or> hex_len r = length r \<or>
          inf_len r = length r \<or> nan_len r = length r))"

text \<open>
  \<open>strtod_end nptr\<close> is the offset of the returned end pointer from \<open>nptr\<close>, for the
  string \<open>nptr\<close> points to (the characters before the first NUL); it is \<open>0\<close> when no
  conversion is performed.
\<close>

definition strtod_end :: "string \<Rightarrow> nat" where
  "strtod_end nptr =
     (let rest = dropWhile isspace nptr
      in case filter (\<lambda>n. subject_form (take n rest)) (rev [1..<Suc (length rest)]) of
           [] \<Rightarrow> 0
         | n # ns \<Rightarrow> length (takeWhile isspace nptr) + n)"

text \<open>
  What the implementation fixes is a parameter: the value the three functions convert
  to and whether the call sets \<open>errno\<close> to \<open>ERANGE\<close> (both take the buffer the function
  was called on), and for every integral type whether it is signed and how many bits it
  has (\<open>std::numeric_limits\<close>).
\<close>

record 'f platform =
  strto_value :: "FloatType \<Rightarrow> string \<Rightarrow> 'f"
  strto_erange :: "FloatType \<Rightarrow> string \<Rightarrow> bool"
  integral_signed :: "IntegralType \<Rightarrow> bool"
  integral_bits :: "IntegralType \<Rightarrow> nat"

text \<open>
  \<open>parse_value<T>\<close>, one equation per overload. In the floating-point overload
  \<open>str_copy.c_str()\<close> is the array holding the field followed by a terminating NUL;
  the library function reads the string that starts there, \<open>end\<close> is an offset into the
  array, and \<open>*end\<close> is the character at that offset.
\<close>

definition c_str :: "string \<Rightarrow> string" where
  "c_str str = str @ [CHR 0x00]"

definition string_at :: "string \<Rightarrow> string" where
  "string_at array = takeWhile (\<lambda>c. c \<noteq> CHR 0x00) array"

fun parse_value :: "'f platform \<Rightarrow> ColumnType \<Rightarrow> string \<Rightarrow> CsvError + 'f Value" where
  "parse_value L (Integral it) str =
     (case from_chars (integral_signed L it) (integral_bits L it) str of
        (ptr, ec, v) \<Rightarrow>
          if ec \<noteq> errc_ok \<or> ptr \<noteq> length str then Inl ParseError else Inr (IntV v))"
| "parse_value L (FloatingPoint ft) str =
     (let str_copy = c_str str; end = strtod_end (string_at str_copy)
      in if end = 0 \<or> str_copy ! end \<noteq> CHR 0x00 then Inl ParseError
         else if strto_erange L ft str_copy then Inl ParseError
         else Inr (FloatV (strto_value L ft str_copy)))"
| "parse_value L StdString str = Inr (StrV str)"

section \<open>CSV loader\<close>

text \<open>
  The header loop \<open>while (std::getline(header_stream, name, kCsvDelimiter))\<close>; it
  returns early when a field arrives and all names are already assigned.
\<close>

function header_loop ::
  "istream \<Rightarrow> 'f Columnar \<Rightarrow> nat \<Rightarrow> CsvError + ('f Columnar \<times> nat)" where
  "header_loop header_stream result col_idx =
     (case getline header_stream CHR '','' of
        (header_stream', None) \<Rightarrow> Inr (result, col_idx)
      | (header_stream', Some name) \<Rightarrow>
          if col_idx \<ge> kColumnCount result then Inl InvalidFormat
          else header_loop header_stream'
                 (result\<lparr>names := (names result)[col_idx := name]\<rparr>) (Suc col_idx))"
  by pat_completeness auto
termination
proof -
  have shorter: "length (buf strm') < length (buf strm)"
    if g: "getline strm delim = (strm', Some str)" for strm strm' :: istream and delim str
  proof (cases "dropWhile (\<lambda>c. c \<noteq> delim) (buf strm)")
    case Nil
    from g [unfolded getline_def Let_def Nil list.case]
    have "buf strm' = []" and "takeWhile (\<lambda>c. c \<noteq> delim) (buf strm) \<noteq> []"
      by (auto split: if_splits)
    then show ?thesis by (cases "buf strm") simp_all
  next
    case (Cons d rest)
    from g [unfolded getline_def Let_def Cons list.case]
    have "buf strm' = rest" by (auto split: if_splits)
    moreover have "length (dropWhile (\<lambda>c. c \<noteq> delim) (buf strm)) \<le> length (buf strm)"
      by (rule length_dropWhile_le)
    ultimately show ?thesis using Cons by simp
  qed
  show ?thesis
  proof (relation "measure (\<lambda>(strm, result, col_idx). length (buf strm))")
    show "wf (measure (\<lambda>(strm, result, col_idx). length (buf strm)))" by simp
  next
    fix header_stream :: istream and result :: "'f Columnar" and col_idx x y x2
    assume "(x, y) = getline header_stream CHR '',''" and "y = Some x2"
    then have "getline header_stream CHR '','' = (x, Some x2)" by simp
    from shorter [OF this]
    show "((x, result\<lparr>names := (names result)[col_idx := x2]\<rparr>, Suc col_idx),
            header_stream, result, col_idx)
          \<in> measure (\<lambda>(strm, result, col_idx). length (buf strm))"
      by simp
  qed
qed

declare header_loop.simps [simp del]

text \<open>
  The fold over the index sequence inside the row lambda:
  \<open>success = success && [&]() -> bool { ... }()\<close> for \<open>Is = 0, 1, ...\<close>. Once
  \<open>success\<close> is false the remaining lambdas are not called.
\<close>

fun parse_fields ::
  "'f platform \<Rightarrow> ColumnType list \<Rightarrow> nat \<Rightarrow> istream \<Rightarrow> 'f Columnar \<Rightarrow> bool
     \<Rightarrow> istream \<times> 'f Columnar \<times> bool" where
  "parse_fields L [] Is row_stream result success = (row_stream, result, success)"
| "parse_fields L (T # Ts) Is row_stream result success =
     (if \<not> success then parse_fields L Ts (Suc Is) row_stream result False
      else
        case getline row_stream CHR '','' of
          (row_stream', None) \<Rightarrow> parse_fields L Ts (Suc Is) row_stream' result False
        | (row_stream', Some value_str) \<Rightarrow>
            (case parse_value L T value_str of
               Inl e \<Rightarrow> parse_fields L Ts (Suc Is) row_stream' result False
             | Inr parsed \<Rightarrow>
                 parse_fields L Ts (Suc Is) row_stream'
                   (result\<lparr>columns := (columns result)[Is := columns result ! Is @ [parsed]]\<rparr>)
                   True))"

text \<open>The row lambda: the fold, then \<open>if (row_stream >> value_str) return false;\<close>.\<close>

definition parse_row :: "'f platform \<Rightarrow> string \<Rightarrow> 'f Columnar \<Rightarrow> 'f Columnar \<times> bool" where
  "parse_row L line result =
     (case parse_fields L (ColumnTypes result) 0 (open_stream line) result True of
        (row_stream, result', success) \<Rightarrow>
          (case extract_string row_stream of
             (row_stream', Some value_str) \<Rightarrow> (result', False)
           | (row_stream', None) \<Rightarrow> (result', success)))"

text \<open>The loop over the data lines, \<open>while (std::getline(file, line))\<close>.\<close>

function row_loop :: "'f platform \<Rightarrow> istream \<Rightarrow> 'f Columnar \<Rightarrow> CsvError + 'f Columnar" where
  "row_loop L file result =
     (case getline file CHR 0x0A of
        (file', None) \<Rightarrow> Inr result
      | (file', Some line) \<Rightarrow>
          if line = [] then row_loop L file' result
          else
            (case parse_row L line result of
               (result', parse_success) \<Rightarrow>
                 if \<not> parse_success then Inl ParseError
                 else row_loop L file' (result'\<lparr>row_count := Suc (row_count result')\<rparr>)))"
  by pat_completeness auto
termination
proof -
  have shorter: "length (buf strm') < length (buf strm)"
    if g: "getline strm delim = (strm', Some str)" for strm strm' :: istream and delim str
  proof (cases "dropWhile (\<lambda>c. c \<noteq> delim) (buf strm)")
    case Nil
    from g [unfolded getline_def Let_def Nil list.case]
    have "buf strm' = []" and "takeWhile (\<lambda>c. c \<noteq> delim) (buf strm) \<noteq> []"
      by (auto split: if_splits)
    then show ?thesis by (cases "buf strm") simp_all
  next
    case (Cons d rest)
    from g [unfolded getline_def Let_def Cons list.case]
    have "buf strm' = rest" by (auto split: if_splits)
    moreover have "length (dropWhile (\<lambda>c. c \<noteq> delim) (buf strm)) \<le> length (buf strm)"
      by (rule length_dropWhile_le)
    ultimately show ?thesis using Cons by simp
  qed
  show ?thesis
  proof (relation "measure (\<lambda>(L, strm, result). length (buf strm))")
    show "wf (measure (\<lambda>(L, strm, result). length (buf strm)))" by simp
  next
    fix L :: "'f platform" and strm :: istream and result :: "'f Columnar" and x y x2
    assume "(x, y) = getline strm CHR 0x0A" and "y = Some x2"
    then have "getline strm CHR 0x0A = (x, Some x2)" by simp
    from shorter [OF this]
    show "((L, x, result), L, strm, result) \<in> measure (\<lambda>(L, strm, result). length (buf strm))"
      by simp
  next
    fix L :: "'f platform" and strm :: istream and result xa :: "'f Columnar" and x y x2
    assume "(x, y) = getline strm CHR 0x0A" and "y = Some x2"
    then have "getline strm CHR 0x0A = (x, Some x2)" by simp
    from shorter [OF this]
    show "((L, x, xa\<lparr>row_count := Suc (row_count xa)\<rparr>), L, strm, result)
          \<in> measure (\<lambda>(L, strm, result). length (buf strm))"
      by simp
  qed
qed

declare row_loop.simps [simp del]

text \<open>
  \<open>try_read_from_csv\<close>. The file system is modelled by what opening the path gives:
  \<open>None\<close> when the file cannot be opened, otherwise its contents. The schema
  \<open>ColumnTypes...\<close> is an argument.
\<close>

definition try_read_from_csv ::
  "'f platform \<Rightarrow> ColumnType list \<Rightarrow> string option \<Rightarrow> CsvError + 'f Columnar" where
  "try_read_from_csv L tys filepath =
     (case filepath of
        None \<Rightarrow> Inl FileNotFound
      | Some contents \<Rightarrow>
          (case getline (open_stream contents) CHR 0x0A of
             (file, None) \<Rightarrow> Inl InvalidFormat
           | (file, Some line) \<Rightarrow>
               if line = [] then Inl InvalidFormat
               else
                 (case header_loop (open_stream line) (default_Columnar tys) 0 of
                    Inl e \<Rightarrow> Inl e
                  | Inr (result, col_idx) \<Rightarrow>
                      if col_idx \<noteq> kColumnCount result then Inl InvalidFormat
                      else row_loop L file result)))"

section \<open>Lines, fields and rows of a file\<close>

text \<open>
  The vocabulary in which the loader is specified. \<open>split_on d s\<close> are the pieces of
  \<open>s\<close> between occurrences of \<open>d\<close>, as repeated \<open>std::getline\<close> delivers them: a
  delimiter at the very end of \<open>s\<close> does not start a further, empty piece, and the empty
  string has no piece at all.
\<close>

fun split_on :: "char \<Rightarrow> string \<Rightarrow> string list" where
  "split_on d [] = []"
| "split_on d (c # cs) =
     (if c = d then [] # split_on d cs
      else case split_on d cs of [] \<Rightarrow> [[c]] | f # fs \<Rightarrow> (c # f) # fs)"

text \<open>
  Splitting in the ordinary sense of the words, for comparison: every delimiter
  separates two fields, so a string with \<open>n\<close> delimiters has \<open>n + 1\<close> fields, the last
  of them empty when the string ends with a delimiter.
\<close>

fun spec_split_on :: "char \<Rightarrow> string \<Rightarrow> string list" where
  "spec_split_on d [] = [[]]"
| "spec_split_on d (c # cs) =
     (if c = d then [] # spec_split_on d cs
      else case spec_split_on d cs of [] \<Rightarrow> [[c]] | f # fs \<Rightarrow> (c # f) # fs)"

definition first_line :: "string \<Rightarrow> string" where
  "first_line contents = takeWhile (\<lambda>c. c \<noteq> CHR 0x0A) contents"

definition header_fields :: "string \<Rightarrow> string list" where
  "header_fields contents = split_on CHR '','' (first_line contents)"

definition data_lines :: "string \<Rightarrow> string list" where
  "data_lines contents = tl (split_on CHR 0x0A contents)"

definition non_blank :: "string list \<Rightarrow> string list" where
  "non_blank lines = filter (\<lambda>line. line \<noteq> []) lines"

definition header_bad :: "ColumnType list \<Rightarrow> string \<Rightarrow> bool" where
  "header_bad tys contents \<longleftrightarrow>
     first_line contents = [] \<or> length (header_fields contents) \<noteq> length tys"

text \<open>
  What is left of a line once \<open>n\<close> fields, each with the comma that ends it, have been
  taken from it: \<open>None\<close> when the line ended with or before the \<open>n\<close>-th field.
\<close>

fun skip_fields :: "nat \<Rightarrow> string option \<Rightarrow> string option" where
  "skip_fields 0 st = st"
| "skip_fields (Suc n) None = None"
| "skip_fields (Suc n) (Some s) =
     skip_fields n (case dropWhile (\<lambda>c. c \<noteq> CHR '','') s of [] \<Rightarrow> None | d # r \<Rightarrow> Some r)"

definition trailing_content :: "nat \<Rightarrow> string \<Rightarrow> bool" where
  "trailing_content n line \<longleftrightarrow>
     (case skip_fields n (Some line) of None \<Rightarrow> False | Some r \<Rightarrow> \<not> list_all isspace r)"

text \<open>
  A decimal or scientific numeral: an optional sign, digits with an optional decimal
  point (at least one digit), and an optional exponent, with nothing before or after.
\<close>

definition decimal_numeral :: "string \<Rightarrow> bool" where
  "decimal_numeral s \<longleftrightarrow>
     (let r = drop (sign_len s) s in r \<noteq> [] \<and> decimal_len r = length r)"

definition field_value :: "'f platform \<Rightarrow> ColumnType \<Rightarrow> string \<Rightarrow> 'f Value option" where
  "field_value L T str = (case parse_value L T str of Inl e \<Rightarrow> None | Inr v \<Rightarrow> Some v)"

definition field_values :: "'f platform \<Rightarrow> ColumnType list \<Rightarrow> string list \<Rightarrow> 'f Value list option" where
  "field_values L tys strs =
     (if length strs < length tys then None else those (map2 (field_value L) tys strs))"

text \<open>
  The values of a data line: none when the line is short, when one of its fields does
  not parse, or when something other than white space is left after the last field.
\<close>

definition row_values :: "'f platform \<Rightarrow> ColumnType list \<Rightarrow> string \<Rightarrow> 'f Value list option" where
  "row_values L tys line =
     (if trailing_content (length tys) line then None
      else field_values L tys (split_on CHR '','' line))"

definition parsed_rows :: "'f platform \<Rightarrow> ColumnType list \<Rightarrow> string list \<Rightarrow> 'f Value list list option" where
  "parsed_rows L tys lines = those (map (row_values L tys) (non_blank lines))"

definition table_of :: "ColumnType list \<Rightarrow> string list \<Rightarrow> 'f Value list list \<Rightarrow> 'f Columnar" where
  "table_of tys header rows =
     \<lparr>ColumnTypes = tys,
      columns = map (\<lambda>i. map (\<lambda>row. row ! i) rows) [0..<length tys],
      names = header,
      row_count = length rows\<rparr>"

section \<open>Auxiliary notions for the proofs\<close>

text \<open>
  What a stream still has to deliver: the pieces that repeated \<open>getline\<close> calls will
  return, and the unread characters of a stream that is still good.
\<close>

definition pending :: "char \<Rightarrow> istream \<Rightarrow> string list" where
  "pending d strm = (if good strm then split_on d (buf strm) else [])"

definition stream_rest :: "istream \<Rightarrow> string option" where
  "stream_rest strm = (if good strm then Some (buf strm) else None)"

text \<open>The assignments and \<open>push_back\<close> calls of the loader, in the order it makes them.\<close>

fun assign_names :: "nat \<Rightarrow> string list \<Rightarrow> string list \<Rightarrow> string list" where
  "assign_names i nms [] = nms"
| "assign_names i nms (f # fs) = assign_names (Suc i) (nms[i := f]) fs"

fun push_values :: "nat \<Rightarrow> 'a list list \<Rightarrow> 'a list \<Rightarrow> 'a list list" where
  "push_values i cols [] = cols"
| "push_values i cols (v # vs) = push_values (Suc i) (cols[i := cols ! i @ [v]]) vs"

fun push_rows :: "'f Columnar \<Rightarrow> 'f Value list list \<Rightarrow> 'f Columnar" where
  "push_rows result [] = result"
| "push_rows result (vs # rows) =
     push_rows (result\<lparr>columns := push_values 0 (columns result) vs,
                       row_count := Suc (row_count result)\<rparr>) rows"

section \<open>Example tables\<close>

text \<open>
  The table of \<open>data/simple.csv\<close> used by the test suite (\<open>Columnar<int, int>\<close>, header
  \<open>id,value\<close>, rows \<open>1,10\<close> to \<open>5,50\<close>), the predicates of the filtering tests, tables
  whose header repeats a name (\<open>Columnar<int, double>\<close> and
  \<open>Columnar<long, long long>\<close>), and a table of type \<open>Columnar<long, int>\<close>.
\<close>

abbreviation cpp_int :: ColumnType where
  "cpp_int \<equiv> Integral T_int"

definition simple_table :: "unit Columnar" where
  "simple_table =
     \<lparr>ColumnTypes = [cpp_int, cpp_int],
      columns = [[IntV 1, IntV 2, IntV 3, IntV 4, IntV 5],
                 [IntV 10, IntV 20, IntV 30, IntV 40, IntV 50]],
      names = [''id'', ''value''],
      row_count = 5\<rparr>"

definition simple_above_30 :: "unit Columnar" where
  "simple_above_30 =
     \<lparr>ColumnTypes = [cpp_int, cpp_int],
      columns = [[IntV 4, IntV 5], [IntV 40, IntV 50]],
      names = [''id'', ''value''],
      row_count = 2\<rparr>"

fun greater_than :: "int \<Rightarrow> 'f Value \<Rightarrow> bool" where
  "greater_than n (IntV v) = (v > n)"
| "greater_than n v = False"

fun at_most :: "int \<Rightarrow> 'f Value \<Rightarrow> bool" where
  "at_most n (IntV v) = (v \<le> n)"
| "at_most n v = False"

definition long_x_table :: "unit Columnar" where
  "long_x_table =
     \<lparr>ColumnTypes = [Integral T_long, Integral T_long_long],
      columns = [[IntV 7], [IntV 8]],
      names = [''x'', ''x''],
      row_count = 1\<rparr>"

definition long_int_table :: "unit Columnar" where
  "long_int_table =
     \<lparr>ColumnTypes = [Integral T_long, Integral T_int],
      columns = [[IntV 7], [IntV 8]],
      names = [''a'', ''b''],
      row_count = 1\<rparr>"

definition twice_x_table :: "unit Columnar" where
  "twice_x_table =
     \<lparr>ColumnTypes = [cpp_int, FloatingPoint Double],
      columns = [[IntV 7], [FloatV ()]],
      names = [''x'', ''x''],
      row_count = 1\<rparr>"

text \<open>
  Files: \<open>data/simple.csv\<close> and \<open>data/empty_with_header.csv\<close> of the test suite, a
  file whose last line is short, files whose only data line continues after its second
  field, a file whose only field starts with a space, and a file that is a header ending
  in a comma. Newline is \<open>CHR 0x0A\<close>.
  \<open>plain_platform\<close> stands for an implementation with the integral types of
  x86-64 Linux, on inputs where \<open>ERANGE\<close> is not raised; the converted floating-point
  values play no role and are the unit value.
\<close>

definition simple_csv :: string where
  "simple_csv = ''id,value'' @ [CHR 0x0A] @ ''1,10'' @ [CHR 0x0A] @ ''2,20'' @ [CHR 0x0A] @
     ''3,30'' @ [CHR 0x0A] @ ''4,40'' @ [CHR 0x0A] @ ''5,50'' @ [CHR 0x0A]"

definition empty_with_header_csv :: string where
  "empty_with_header_csv = ''id,value'' @ [CHR 0x0A]"

definition trailing_space_csv :: string where
  "trailing_space_csv = ''id,value'' @ [CHR 0x0A] @ ''1,2, '' @ [CHR 0x0A]"

definition short_row_csv :: string where
  "short_row_csv = ''id,value'' @ [CHR 0x0A] @ ''1,10'' @ [CHR 0x0A] @ ''2''"

definition leading_space_csv :: string where
  "leading_space_csv = ''x'' @ [CHR 0x0A] @ '' 1.5'' @ [CHR 0x0A]"

definition extra_field_csv :: string where
  "extra_field_csv = ''id,value'' @ [CHR 0x0A] @ ''1,10,3'' @ [CHR 0x0A]"

definition trailing_comma_header_csv :: string where
  "trailing_comma_header_csv = ''id,value,''"

fun lp64_signed :: "IntegralType \<Rightarrow> bool" where
  "lp64_signed T_unsigned_char = False"
| "lp64_signed T_unsigned_short = False"
| "lp64_signed T_unsigned_int = False"
| "lp64_signed T_unsigned_long = False"
| "lp64_signed T_unsigned_long_long = False"
| "lp64_signed it = True"

fun lp64_bits :: "IntegralType \<Rightarrow> nat" where
  "lp64_bits T_char = 8"
| "lp64_bits T_signed_char = 8"
| "lp64_bits T_unsigned_char = 8"
| "lp64_bits T_short = 16"
| "lp64_bits T_unsigned_short = 16"
| "lp64_bits T_int = 32"
| "lp64_bits T_unsigned_int = 32"
| "lp64_bits it = 64"

definition plain_platform :: "unit platform" where
  "plain_platform =
     \<lparr>strto_value = (\<lambda>ft str. ()), strto_erange = (\<lambda>ft str. False),
      integral_signed = lp64_signed, integral_bits = lp64_bits\<rparr>"

section \<open>Properties of lookup and filtering\<close>

text \<open>The invariant, spelled out position by position.\<close>

lemma table_inv_alt:
  "table_inv t \<longleftrightarrow>
     length (columns t) = kColumnCount t \<and>
     length (names t) = kColumnCount t \<and>
     (\<forall>c \<in> set (columns t). length c = row_count t) \<and>
     (\<forall>i < kColumnCount t. \<forall>v \<in> set (columns t ! i). has_type (ColumnTypes t ! i) v)"
  unfolding table_inv_def kColumnCount_def list_all2_conv_all_nth list_all_iff all_set_conv_all_nth
  by auto

lemma std_find_le: "std_find xs name \<le> length xs"
  by (induction xs) auto

lemma std_find_end: "std_find xs name = length xs \<longleftrightarrow> name \<notin> set xs"
proof (induction xs)
  case Nil
  show ?case by simp
next
  case (Cons x xs)
  have "std_find xs name \<le> length xs" by (rule std_find_le)
  with Cons show ?case by auto
qed

lemma std_find_lt: "name \<in> set xs \<Longrightarrow> std_find xs name < length xs"
  using std_find_le [of xs name] std_find_end [of xs name] by linarith

lemma std_find_nth: "name \<in> set xs \<Longrightarrow> xs ! std_find xs name = name"
  by (induction xs) auto

lemma std_find_first: "j < std_find xs name \<Longrightarrow> xs ! j \<noteq> name"
proof (induction xs arbitrary: j)
  case Nil
  then show ?case by simp
next
  case (Cons x xs)
  then show ?case by (cases j) (auto split: if_splits)
qed

lemma std_find_least: "i < length xs \<Longrightarrow> xs ! i = name \<Longrightarrow> std_find xs name \<le> i"
  using std_find_first [of i xs name] by (meson not_le_imp_less)

lemma view_fold_zip:
  "view_fold t T index (zip [a..<a + length tys] tys) r =
     (if a \<le> index \<and> index < a + length tys \<and> T = tys ! (index - a)
      then Inr (get_column_view_at t index) else r)"
proof (induction tys arbitrary: a)
  case Nil
  show ?case by auto
next
  case (Cons ty tys)
  have "a < a + length (ty # tys)" by simp
  then have "[a..<a + length (ty # tys)] = a # [Suc a..<a + length (ty # tys)]"
    by (rule upt_conv_Cons)
  then have upt: "[a..<a + length (ty # tys)] = a # [Suc a..<Suc a + length tys]"
    by simp
  show ?case
  proof (cases "a = index")
    case True
    then show ?thesis unfolding upt by simp
  next
    case False
    have "view_fold t T index (zip [a..<a + length (ty # tys)] (ty # tys)) r =
          view_fold t T index (zip [Suc a..<Suc a + length tys] tys) r"
      unfolding upt using False by simp
    also have "\<dots> = (if Suc a \<le> index \<and> index < Suc a + length tys \<and> T = tys ! (index - Suc a)
      then Inr (get_column_view_at t index) else r)"
      by (rule Cons.IH)
    also have "\<dots> = (if a \<le> index \<and> index < a + length (ty # tys) \<and> T = (ty # tys) ! (index - a)
      then Inr (get_column_view_at t index) else r)"
    proof (cases "Suc a \<le> index")
      case True
      then have "index - a = Suc (index - Suc a)" by simp
      with True show ?thesis by auto
    next
      case False
      with \<open>a \<noteq> index\<close> show ?thesis by auto
    qed
    finally show ?thesis .
  qed
qed

lemma get_column_view_eq:
  assumes "length (names t) = kColumnCount t"
  shows "get_column_view t T name =
     (if name \<notin> set (names t) then Inl ColumnNotFound
      else if ColumnTypes t ! std_find (names t) name = T
           then Inr (get_column_view_at t (std_find (names t) name))
           else Inl ParseError)"
proof (cases "name \<in> set (names t)")
  case False
  then show ?thesis by (simp add: get_column_view_def std_find_end)
next
  case True
  then have lt: "std_find (names t) name < length (ColumnTypes t)"
    using std_find_lt [of name "names t"] assms by (simp add: kColumnCount_def)
  have ne: "std_find (names t) name \<noteq> length (names t)"
    using True by (simp add: std_find_end)
  have vf: "view_fold t T (std_find (names t) name) (zip [0..<kColumnCount t] (ColumnTypes t))
          (Inl ColumnNotFound) =
        (if T = ColumnTypes t ! std_find (names t) name
         then Inr (get_column_view_at t (std_find (names t) name)) else Inl ColumnNotFound)"
    using view_fold_zip [of t T "std_find (names t) name" 0 "ColumnTypes t" "Inl ColumnNotFound"] lt
    by (simp add: kColumnCount_def)
  show ?thesis
    using True ne by (auto simp: get_column_view_def Let_def vf)
qed

lemma keep_loop_eq: "keep_loop keep i n acc = acc @ filter keep [i..<n]"
proof (induction keep i n acc rule: keep_loop.induct)
  case (1 keep i n acc)
  show ?case
  proof (cases "i < n")
    case True
    then have "[i..<n] = i # [Suc i..<n]" by (simp add: upt_conv_Cons)
    with True 1 show ?thesis by (subst keep_loop.simps) simp
  next
    case False
    then show ?thesis by (subst keep_loop.simps) simp
  qed
qed

lemma filter_Columnar_eq:
  assumes "length (names t) = kColumnCount t"
  shows "filter_Columnar t T name p =
     (case get_column_view t T name of
        Inl e \<Rightarrow> Inl e
      | Inr c \<Rightarrow>
          Inr \<lparr>ColumnTypes = ColumnTypes t,
               columns = map (\<lambda>src. map (\<lambda>idx. src ! idx)
                                (filter (\<lambda>i. p (span_at t c i)) [0..<row_count t])) (columns t),
               names = names t,
               row_count = length (filter (\<lambda>i. p (span_at t c i)) [0..<row_count t])\<rparr>)"
  by (simp add: filter_Columnar_def keep_loop_eq Let_def split: sum.splits)


lemma get_column_view_Inr:
  assumes "table_inv t" and "get_column_view t T name = Inr c"
  shows "name \<in> set (names t) \<and> std_find (names t) name < kColumnCount t \<and>
         ColumnTypes t ! std_find (names t) name = T \<and>
         c = get_column_view_at t (std_find (names t) name)"
proof -
  have len: "length (names t) = kColumnCount t" using assms(1) by (simp add: table_inv_alt)
  have mem: "name \<in> set (names t)"
    using assms(2) get_column_view_eq [OF len, of T name] by (auto split: if_splits)
  then have "std_find (names t) name < kColumnCount t"
    using std_find_lt [of name "names t"] len by simp
  with mem show ?thesis
    using assms(2) get_column_view_eq [OF len, of T name] by (auto split: if_splits)
qed

lemma kept_set: "set (filter P [0..<n]) = {i. i < n \<and> P i}"
  by auto

lemma kept_card: "length (filter P [0..<n]) = card {i. i < n \<and> P i}"
proof -
  have "distinct (filter P [0..<n])" by simp
  then have "card (set (filter P [0..<n])) = length (filter P [0..<n])"
    by (rule distinct_card)
  then show ?thesis by (simp only: kept_set)
qed

lemma kept_sorted: "sorted_wrt (<) (filter P [0..<n])"
  by (rule sorted_wrt_filter) simp

lemma rows_of_kept:
  "map (\<lambda>j. map (\<lambda>column. column ! j) (map (\<lambda>src. map (\<lambda>idx. src ! idx) ks) cols)) [0..<length ks]
   = map (\<lambda>i. map (\<lambda>column. column ! i) cols) ks"
proof -
  have "map (\<lambda>j. map (\<lambda>column. column ! j) (map (\<lambda>src. map (\<lambda>idx. src ! idx) ks) cols)) [0..<length ks]
      = map (\<lambda>j. map (\<lambda>column. column ! (ks ! j)) cols) [0..<length ks]"
    by (rule map_cong) (simp_all add: comp_def)
  also have "\<dots> = map (\<lambda>i. map (\<lambda>column. column ! i) cols) (map (\<lambda>j. ks ! j) [0..<length ks])"
    by (simp add: comp_def)
  also have "map (\<lambda>j. ks ! j) [0..<length ks] = ks" by (rule map_nth)
  finally show ?thesis .
qed

lemma filter_table_rows:
  assumes "f < length cols"
  shows "map (\<lambda>i. map (\<lambda>column. column ! i) cols) (filter (\<lambda>i. p (cols ! f ! i)) [0..<n])
       = filter (\<lambda>row. p (row ! f)) (map (\<lambda>i. map (\<lambda>column. column ! i) cols) [0..<n])"
  using assms by (simp add: filter_map comp_def)

lemma filter_Columnar_Inr:
  assumes inv: "table_inv t" and ok: "filter_Columnar t T name p = Inr r"
  shows "\<exists>c. get_column_view t T name = Inr c \<and>
           r = \<lparr>ColumnTypes = ColumnTypes t,
                columns = map (\<lambda>src. map (\<lambda>idx. src ! idx)
                                (filter (\<lambda>i. p (span_at t c i)) [0..<row_count t])) (columns t),
                names = names t,
                row_count = length (filter (\<lambda>i. p (span_at t c i)) [0..<row_count t])\<rparr>"
proof -
  have len: "length (names t) = kColumnCount t" using inv by (simp add: table_inv_alt)
  show ?thesis
    using ok unfolding filter_Columnar_eq [OF len] by (auto split: sum.splits)
qed

lemma filter_Columnar_inv:
  assumes inv: "table_inv t" and ok: "filter_Columnar t T name p = Inr r"
  shows "table_inv r"
proof -
  from filter_Columnar_Inr [OF inv ok] obtain c where
    r: "r = \<lparr>ColumnTypes = ColumnTypes t,
                columns = map (\<lambda>src. map (\<lambda>idx. src ! idx)
                                (filter (\<lambda>i. p (span_at t c i)) [0..<row_count t])) (columns t),
                names = names t,
                row_count = length (filter (\<lambda>i. p (span_at t c i)) [0..<row_count t])\<rparr>"
    by blast
  define ks where "ks = filter (\<lambda>i. p (span_at t c i)) [0..<row_count t]"
  have ks: "\<forall>idx \<in> set ks. idx < row_count t" by (auto simp: ks_def)
  have typed: "has_type (ColumnTypes t ! i) v"
    if "i < kColumnCount t" and "v \<in> set (map (\<lambda>idx. columns t ! i ! idx) ks)" for i v
  proof -
    from that(2) obtain idx where idx: "idx \<in> set ks" "v = columns t ! i ! idx" by auto
    have "columns t ! i \<in> set (columns t)" using that(1) inv by (simp add: table_inv_alt)
    then have "length (columns t ! i) = row_count t" using inv by (simp add: table_inv_alt)
    with idx ks have "v \<in> set (columns t ! i)" by simp
    with that(1) inv show ?thesis by (simp add: table_inv_alt)
  qed
  show ?thesis
    using inv typed unfolding r ks_def [symmetric]
    by (auto simp: table_inv_alt kColumnCount_def)
qed

lemma filter_Columnar_rows:
  assumes inv: "table_inv t" and ok: "filter_Columnar t T name p = Inr r"
  shows "table_rows r = filter (\<lambda>row. p (row ! std_find (names t) name)) (table_rows t)"
proof -
  from filter_Columnar_Inr [OF inv ok] obtain c where
    c: "get_column_view t T name = Inr c" and
    r: "r = \<lparr>ColumnTypes = ColumnTypes t,
                columns = map (\<lambda>src. map (\<lambda>idx. src ! idx)
                                (filter (\<lambda>i. p (span_at t c i)) [0..<row_count t])) (columns t),
                names = names t,
                row_count = length (filter (\<lambda>i. p (span_at t c i)) [0..<row_count t])\<rparr>"
    by blast
  define f where "f = std_find (names t) name"
  from get_column_view_Inr [OF inv c] have f: "f < kColumnCount t" "c = get_column_view_at t f"
    by (simp_all add: f_def)
  have at: "span_at t c = (\<lambda>i. columns t ! f ! i)"
    by (rule ext) (simp add: span_at_def f(2) get_column_view_at_def)
  have flen: "f < length (columns t)" using f(1) inv by (simp add: table_inv_alt)
  define ks where "ks = filter (\<lambda>i. p (columns t ! f ! i)) [0..<row_count t]"
  have cr: "columns r = map (\<lambda>src. map (\<lambda>idx. src ! idx) ks) (columns t)"
    and rr: "row_count r = length ks"
    by (simp_all add: r at ks_def)
  have "table_rows r = map (\<lambda>i. map (\<lambda>column. column ! i) (columns t)) ks"
    by (simp only: table_rows_def cr rr rows_of_kept)
  also have "\<dots> = map (\<lambda>i. map (\<lambda>column. column ! i) (columns t))
                          (filter (\<lambda>i. p (columns t ! f ! i)) [0..<row_count t])"
    by (simp only: ks_def)
  also have "\<dots> = filter (\<lambda>row. p (row ! f)) (table_rows t)"
    unfolding table_rows_def by (rule filter_table_rows [OF flen])
  finally show ?thesis by (simp add: f_def)
qed

section \<open>Properties of the loader\<close>

subsection \<open>Streams and splitting\<close>

lemma split_on_Nil_iff: "split_on d s = [] \<longleftrightarrow> s = []"
  by (cases s) (auto split: list.splits)

lemma split_on_unfold:
  "s \<noteq> [] \<Longrightarrow>
   split_on d s = takeWhile (\<lambda>c. c \<noteq> d) s #
     (case dropWhile (\<lambda>c. c \<noteq> d) s of [] \<Rightarrow> [] | x # r \<Rightarrow> split_on d r)"
proof (induction s)
  case Nil
  then show ?case by simp
next
  case (Cons c cs)
  show ?case
  proof (cases "c = d")
    case True
    then show ?thesis by simp
  next
    case False
    show ?thesis
    proof (cases "cs = []")
      case True
      with False show ?thesis by simp
    next
      case ne: False
      from Cons.IH [OF ne] False show ?thesis by simp
    qed
  qed
qed

text \<open>
  The number of pieces in ordinary terms: one more than the number of delimiters, except
  that a delimiter at the very end does not count.
\<close>

lemma length_split_on:
  "s \<noteq> [] \<Longrightarrow>
   length (split_on d s) =
     length (filter (\<lambda>c. c = d) s) + (if last s = d then 0 else 1)"
proof (induction s)
  case Nil
  then show ?case by simp
next
  case (Cons c cs)
  show ?case
  proof (cases "cs = []")
    case True
    then show ?thesis by simp
  next
    case False
    from Cons.IH [OF False] False show ?thesis
      by (cases "split_on d cs") (auto simp: split_on_Nil_iff)
  qed
qed

lemma spec_split_on_nonempty: "spec_split_on d s \<noteq> []"
  by (cases s) (auto split: list.splits)

lemma split_on_spec:
  "s \<noteq> [] \<Longrightarrow>
   split_on d s = (if last s = d then butlast (spec_split_on d s) else spec_split_on d s)"
proof (induction s)
  case Nil
  then show ?case by simp
next
  case (Cons c cs)
  show ?case
  proof (cases "cs = []")
    case True
    then show ?thesis by simp
  next
    case False
    note ih = Cons.IH [OF False]
    have sne: "split_on d cs \<noteq> []" using False by (simp add: split_on_Nil_iff)
    obtain f fs where sp: "spec_split_on d cs = f # fs"
      using spec_split_on_nonempty [of d cs] by (cases "spec_split_on d cs") auto
    show ?thesis
    proof (cases "last cs = d")
      case True
      with ih sp have so: "split_on d cs = butlast (f # fs)" by simp
      with sne have "fs \<noteq> []" by (cases fs) auto
      with so True False sp show ?thesis by simp
    next
      case nl: False
      with ih sp have "split_on d cs = f # fs" by simp
      with nl False sp show ?thesis by simp
    qed
  qed
qed

lemma pending_open [simp]: "pending d (open_stream s) = split_on d s"
  by (simp add: pending_def open_stream_def good_def)

lemma stream_rest_open [simp]: "stream_rest (open_stream s) = Some s"
  by (simp add: stream_rest_def open_stream_def good_def)

lemma getline_Nil:
  assumes "pending d strm = []"
  shows "snd (getline strm d) = None" and "pending d (fst (getline strm d)) = []"
  using assms
  by (auto simp: pending_def getline_def good_def split_on_Nil_iff split: if_splits)

lemma getline_Cons:
  assumes "pending d strm = f # fs"
  shows "snd (getline strm d) = Some f" and "pending d (fst (getline strm d)) = fs"
proof -
  from assms have g: "good strm" and ne: "buf strm \<noteq> []" and sp: "split_on d (buf strm) = f # fs"
    by (auto simp: pending_def split: if_splits)
  from split_on_unfold [OF ne, of d] sp
  have f: "f = takeWhile (\<lambda>c. c \<noteq> d) (buf strm)"
    and fs: "fs = (case dropWhile (\<lambda>c. c \<noteq> d) (buf strm) of [] \<Rightarrow> [] | x # r \<Rightarrow> split_on d r)"
    by simp_all
  have "getline strm d = (fst (getline strm d), Some f) \<and> pending d (fst (getline strm d)) = fs"
  proof (cases "dropWhile (\<lambda>c. c \<noteq> d) (buf strm)")
    case Nil
    then have tw: "takeWhile (\<lambda>c. c \<noteq> d) (buf strm) = buf strm"
      by (simp add: takeWhile_eq_all_conv)
    have "getline strm d = (strm\<lparr>buf := [], eofbit := True\<rparr>, Some (buf strm))"
      using g ne by (simp add: getline_def Let_def Nil tw del: dropWhile_eq_Nil_conv)
    then show ?thesis using f fs Nil tw by (simp add: pending_def good_def)
  next
    case (Cons x r)
    have "getline strm d = (strm\<lparr>buf := r\<rparr>, Some f)"
      using g f by (simp add: getline_def Let_def Cons)
    then show ?thesis using g fs Cons by (simp add: pending_def good_def)
  qed
  then show "snd (getline strm d) = Some f" and "pending d (fst (getline strm d)) = fs"
    by (metis snd_conv, blast)
qed

lemma getline_rest:
  "stream_rest (fst (getline strm d)) =
     (case stream_rest strm of
        None \<Rightarrow> None
      | Some s \<Rightarrow> (case dropWhile (\<lambda>c. c \<noteq> d) s of [] \<Rightarrow> None | x # r \<Rightarrow> Some r))"
proof (cases "good strm")
  case False
  then show ?thesis by (auto simp: getline_def stream_rest_def good_def)
next
  case True
  show ?thesis
  proof (cases "dropWhile (\<lambda>c. c \<noteq> d) (buf strm)")
    case Nil
    with True show ?thesis
      unfolding getline_def Let_def Nil list.case
      by (simp add: stream_rest_def good_def Nil)
  next
    case (Cons x r)
    with True show ?thesis
      unfolding getline_def Let_def Cons list.case
      by (simp add: stream_rest_def good_def Cons)
  qed
qed

lemma extract_string_iff:
  "snd (extract_string strm) \<noteq> None \<longleftrightarrow>
     (case stream_rest strm of None \<Rightarrow> False | Some r \<Rightarrow> \<not> list_all isspace r)"
proof (cases "good strm")
  case False
  then show ?thesis by (simp add: extract_string_def stream_rest_def)
next
  case True
  show ?thesis
  proof (cases "dropWhile isspace (buf strm)")
    case Nil
    then have "list_all isspace (buf strm)" by (simp add: list_all_iff)
    with True Nil show ?thesis
      unfolding extract_string_def Nil list.case
      by (simp add: stream_rest_def)
  next
    case (Cons c cs)
    then have "\<not> list_all isspace (buf strm)"
      by (metis dropWhile_eq_Nil_conv list.distinct(1) list_all_iff)
    with True show ?thesis
      unfolding extract_string_def Cons list.case Let_def
      by (simp add: stream_rest_def)
  qed
qed


subsection \<open>The header loop\<close>

lemma header_loop_eq:
  assumes "pending CHR '','' strm = fs" and "col_idx \<le> kColumnCount result"
  shows "header_loop strm result col_idx =
     (if col_idx + length fs > kColumnCount result then Inl InvalidFormat
      else Inr (result\<lparr>names := assign_names col_idx (names result) fs\<rparr>, col_idx + length fs))"
  using assms
proof (induction fs arbitrary: strm result col_idx)
  case Nil
  obtain strm' r where g: "getline strm CHR '','' = (strm', r)" by (cases "getline strm CHR '',''")
  with getline_Nil(1) [OF Nil(1)] have "r = None" by simp
  with g Nil show ?case by (subst header_loop.simps) simp
next
  case (Cons f fs)
  obtain strm' r where g: "getline strm CHR '','' = (strm', r)" by (cases "getline strm CHR '',''")
  with getline_Cons [OF Cons.prems(1)] have r: "r = Some f" and p: "pending CHR '','' strm' = fs"
    by simp_all
  show ?case
  proof (cases "col_idx \<ge> kColumnCount result")
    case True
    with g r show ?thesis by (subst header_loop.simps) simp
  next
    case False
    let ?result = "result\<lparr>names := (names result)[col_idx := f]\<rparr>"
    have k: "kColumnCount ?result = kColumnCount result" by (simp add: kColumnCount_def)
    from False have "Suc col_idx \<le> kColumnCount ?result" by (simp add: k)
    from Cons.IH [OF p this]
    have "header_loop strm' ?result (Suc col_idx) =
      (if Suc col_idx + length fs > kColumnCount result then Inl InvalidFormat
       else Inr (result\<lparr>names := assign_names (Suc col_idx) ((names result)[col_idx := f]) fs\<rparr>,
                 Suc col_idx + length fs))"
      by (simp add: k)
    with g r False show ?thesis by (subst header_loop.simps) simp
  qed
qed

lemma assign_names_nth:
  "length (assign_names i nms fs) = length nms \<and>
   (\<forall>j < length nms. assign_names i nms fs ! j =
        (if i \<le> j \<and> j < i + length fs then fs ! (j - i) else nms ! j))"
proof (induction fs arbitrary: i nms)
  case Nil
  show ?case by auto
next
  case (Cons f fs)
  show ?case
  proof (intro conjI allI impI)
    show "length (assign_names i nms (f # fs)) = length nms" using Cons.IH by simp
  next
    fix j assume j: "j < length nms"
    have "assign_names i nms (f # fs) ! j = assign_names (Suc i) (nms[i := f]) fs ! j" by simp
    also have "\<dots> = (if Suc i \<le> j \<and> j < Suc i + length fs then fs ! (j - Suc i) else nms[i := f] ! j)"
      using Cons.IH [of "Suc i" "nms[i := f]"] j by simp
    also have "\<dots> = (if i \<le> j \<and> j < i + length (f # fs) then (f # fs) ! (j - i) else nms ! j)"
    proof (cases "j = i")
      case True
      with j show ?thesis by simp
    next
      case False
      then show ?thesis
        by (cases "Suc i \<le> j") (auto simp: Suc_diff_Suc nth_Cons')
    qed
    finally show "assign_names i nms (f # fs) ! j =
        (if i \<le> j \<and> j < i + length (f # fs) then (f # fs) ! (j - i) else nms ! j)" .
  qed
qed

lemma assign_names_all: "length nms = length fs \<Longrightarrow> assign_names 0 nms fs = fs"
  by (rule nth_equalityI) (simp_all add: assign_names_nth)

subsection \<open>One row\<close>

lemma field_values_Nil [simp]: "field_values L [] fs = Some []"
  by (simp add: field_values_def)

lemma field_values_Cons_Nil [simp]: "field_values L (T # Ts) [] = None"
  by (simp add: field_values_def)

lemma field_values_Cons_Cons:
  "field_values L (T # Ts) (f # fs) =
     (case field_value L T f of
        None \<Rightarrow> None
      | Some v \<Rightarrow> map_option ((#) v) (field_values L Ts fs))"
  by (simp add: field_values_def split: option.splits)

lemma skip_fields_None [simp]: "skip_fields n None = None"
  by (cases n) simp_all

lemma parse_fields_False:
  "parse_fields L Ts Is strm result False = (strm, result, False)"
  by (induction Ts arbitrary: Is) simp_all

lemma parse_fields_True:
  assumes "pending CHR '','' strm = fs"
    and "parse_fields L Ts Is strm result True = (strm', result', ok)"
  shows "ok = (field_values L Ts fs \<noteq> None) \<and>
         (\<forall>vs. field_values L Ts fs = Some vs \<longrightarrow>
            result' = result\<lparr>columns := push_values Is (columns result) vs\<rparr> \<and>
            stream_rest strm' = skip_fields (length Ts) (stream_rest strm))"
  using assms
proof (induction Ts arbitrary: Is strm result fs)
  case Nil
  then show ?case by simp
next
  case (Cons T Ts)
  obtain s1 r where g: "getline strm CHR '','' = (s1, r)" by (cases "getline strm CHR '',''")
  have rest: "stream_rest s1 = skip_fields 1 (stream_rest strm)"
    using getline_rest [of strm "CHR '',''"] g by (simp split: option.splits)
  show ?case
  proof (cases fs)
    case Nil
    with getline_Nil(1) [of "CHR '',''" strm] Cons.prems(1) g have "r = None" by simp
    with Cons.prems(2) g Nil show ?thesis by (simp add: parse_fields_False)
  next
    case (Cons f fs')
    with getline_Cons [of "CHR '',''" strm f fs'] Cons.prems(1) g
    have r: "r = Some f" and p: "pending CHR '','' s1 = fs'" by simp_all
    show ?thesis
    proof (cases "parse_value L T f")
      case (Inl e)
      then have "field_value L T f = None" by (simp add: field_value_def)
      with Cons.prems(2) g r Inl Cons show ?thesis
        by (simp add: parse_fields_False field_values_Cons_Cons)
    next
      case (Inr v)
      then have fv: "field_value L T f = Some v" by (simp add: field_value_def)
      let ?result = "result\<lparr>columns := (columns result)[Is := columns result ! Is @ [v]]\<rparr>"
      from Cons.prems(2) g r Inr
      have pf: "parse_fields L Ts (Suc Is) s1 ?result True = (strm', result', ok)" by simp
      from Cons.IH [OF p pf]
      have ih: "ok = (field_values L Ts fs' \<noteq> None)"
        "\<forall>vs. field_values L Ts fs' = Some vs \<longrightarrow>
            result' = ?result\<lparr>columns := push_values (Suc Is) (columns ?result) vs\<rparr> \<and>
            stream_rest strm' = skip_fields (length Ts) (stream_rest s1)"
        by simp_all
      have sk: "skip_fields (length Ts) (stream_rest s1) =
                skip_fields (length (T # Ts)) (stream_rest strm)"
        unfolding rest by (cases "stream_rest strm") simp_all
      from ih sk fv Cons show ?thesis
        by (auto simp: field_values_Cons_Cons)
    qed
  qed
qed

lemma parse_row_eq:
  "snd (parse_row L line result) = (row_values L (ColumnTypes result) line \<noteq> None) \<and>
   (\<forall>vs. row_values L (ColumnTypes result) line = Some vs \<longrightarrow>
      fst (parse_row L line result) = result\<lparr>columns := push_values 0 (columns result) vs\<rparr>)"
proof -
  obtain strm' result' ok where
    pf: "parse_fields L (ColumnTypes result) 0 (open_stream line) result True = (strm', result', ok)"
    by (cases "parse_fields L (ColumnTypes result) 0 (open_stream line) result True")
  have p: "pending CHR '','' (open_stream line) = split_on CHR '','' line" by simp
  from parse_fields_True [OF p pf]
  have ok: "ok = (field_values L (ColumnTypes result) (split_on CHR '','' line) \<noteq> None)"
    and vs: "\<forall>vs. field_values L (ColumnTypes result) (split_on CHR '','' line) = Some vs \<longrightarrow>
            result' = result\<lparr>columns := push_values 0 (columns result) vs\<rparr> \<and>
            stream_rest strm' = skip_fields (length (ColumnTypes result)) (Some line)"
    by simp_all
  obtain s2 w where ex: "extract_string strm' = (s2, w)" by (cases "extract_string strm'")
  have w: "w \<noteq> None \<longleftrightarrow>
      (case stream_rest strm' of None \<Rightarrow> False | Some r \<Rightarrow> \<not> list_all isspace r)"
    using extract_string_iff [of strm'] ex by simp
  have pr: "parse_row L line result = (result', if w \<noteq> None then False else ok)"
    using pf ex by (cases w) (simp_all add: parse_row_def)
  show ?thesis
  proof (cases "field_values L (ColumnTypes result) (split_on CHR '','' line)")
    case None
    with ok pr show ?thesis by (simp add: row_values_def)
  next
    case (Some vs)
    with vs have r': "result' = result\<lparr>columns := push_values 0 (columns result) vs\<rparr>"
      and sr: "stream_rest strm' = skip_fields (length (ColumnTypes result)) (Some line)"
      by simp_all
    from w sr have "w \<noteq> None \<longleftrightarrow> trailing_content (length (ColumnTypes result)) line"
      by (simp add: trailing_content_def)
    with Some ok pr r' show ?thesis by (auto simp: row_values_def)
  qed
qed

subsection \<open>The loop over the data lines\<close>

lemma parsed_rows_Nil [simp]: "parsed_rows L tys [] = Some []"
  by (simp add: parsed_rows_def non_blank_def)

lemma parsed_rows_Cons:
  "parsed_rows L tys (line # lines) =
     (if line = [] then parsed_rows L tys lines
      else case row_values L tys line of
             None \<Rightarrow> None
           | Some vs \<Rightarrow> map_option ((#) vs) (parsed_rows L tys lines))"
  by (simp add: parsed_rows_def non_blank_def split: option.splits)

lemma row_loop_eq:
  assumes "pending CHR 0x0A strm = lines"
  shows "row_loop L strm result =
     (case parsed_rows L (ColumnTypes result) lines of
        None \<Rightarrow> Inl ParseError
      | Some rows \<Rightarrow> Inr (push_rows result rows))"
  using assms
proof (induction lines arbitrary: strm result)
  case Nil
  obtain strm' r where g: "getline strm CHR 0x0A = (strm', r)" by (cases "getline strm CHR 0x0A")
  with getline_Nil(1) [OF Nil] have "r = None" by simp
  with g show ?case by (subst row_loop.simps) simp
next
  case (Cons line lines)
  obtain strm' r where g: "getline strm CHR 0x0A = (strm', r)" by (cases "getline strm CHR 0x0A")
  with getline_Cons [OF Cons.prems] have r: "r = Some line" and p: "pending CHR 0x0A strm' = lines"
    by simp_all
  show ?case
  proof (cases "line = []")
    case True
    with g r Cons.IH [OF p, of result] show ?thesis
      by (subst row_loop.simps) (simp add: parsed_rows_Cons)
  next
    case False
    obtain result' ok where pr: "parse_row L line result = (result', ok)"
      by (cases "parse_row L line result")
    from parse_row_eq [of L line result] pr
    have ok: "ok = (row_values L (ColumnTypes result) line \<noteq> None)"
      and vs: "\<forall>vs. row_values L (ColumnTypes result) line = Some vs \<longrightarrow>
                 result' = result\<lparr>columns := push_values 0 (columns result) vs\<rparr>"
      by simp_all
    show ?thesis
    proof (cases "row_values L (ColumnTypes result) line")
      case None
      with ok g r False pr show ?thesis
        by (subst row_loop.simps) (simp add: parsed_rows_Cons)
    next
      case (Some vs)
      with vs have r': "result' = result\<lparr>columns := push_values 0 (columns result) vs\<rparr>" by simp
      let ?next = "result'\<lparr>row_count := Suc (row_count result')\<rparr>"
      have ct: "ColumnTypes ?next = ColumnTypes result" by (simp add: r')
      have nx: "?next = result\<lparr>columns := push_values 0 (columns result) vs,
                       row_count := Suc (row_count result)\<rparr>"
        by (simp add: r')
      have "row_loop L strm result = row_loop L strm' ?next"
        using g r False pr ok Some by (subst row_loop.simps) simp
      also have "\<dots> = (case parsed_rows L (ColumnTypes result) lines of
                          None \<Rightarrow> Inl ParseError
                        | Some rows \<Rightarrow> Inr (push_rows ?next rows))"
        using Cons.IH [OF p, of ?next] by (simp only: ct)
      also have "\<dots> = (case parsed_rows L (ColumnTypes result) (line # lines) of
                          None \<Rightarrow> Inl ParseError
                        | Some rows \<Rightarrow> Inr (push_rows result rows))"
        using False Some by (simp add: parsed_rows_Cons nx split: option.splits)
      finally show ?thesis .
    qed
  qed
qed

subsection \<open>The table that the loader builds\<close>

lemma those_eq_Some: "those xs = Some ys \<longleftrightarrow> xs = map Some ys"
proof (induction xs arbitrary: ys)
  case Nil
  show ?case by auto
next
  case (Cons x xs)
  show ?case
  proof (cases x)
    case None
    then show ?thesis by (cases ys) auto
  next
    case (Some y)
    show ?thesis
    proof (cases ys)
      case Nil
      with Some show ?thesis by (simp split: option.splits)
    next
      case (Cons y' ys')
      have "those (x # xs) = Some ys \<longleftrightarrow> y = y' \<and> those xs = Some ys'"
        using Some Cons by (auto split: option.splits)
      also have "\<dots> \<longleftrightarrow> y = y' \<and> xs = map Some ys'" by (simp only: Cons.IH)
      also have "\<dots> \<longleftrightarrow> x # xs = map Some ys" using Some Cons by auto
      finally show ?thesis .
    qed
  qed
qed

lemma parse_value_has_type: "parse_value L T str = Inr v \<Longrightarrow> has_type T v"
  by (cases T) (auto simp: Let_def split: prod.splits if_splits)

lemma field_values_typed:
  assumes "field_values L tys fs = Some vs"
  shows "list_all2 has_type tys vs"
proof -
  from assms have len: "length tys \<le> length fs"
    and m: "map2 (field_value L) tys fs = map Some vs"
    by (auto simp: field_values_def those_eq_Some split: if_splits)
  from m have "length (map2 (field_value L) tys fs) = length (map Some vs)" by simp
  with len have lv: "length vs = length tys" by simp
  have "has_type (tys ! i) (vs ! i)" if i: "i < length tys" for i
  proof -
    from i len lv have "map2 (field_value L) tys fs ! i = field_value L (tys ! i) (fs ! i)"
      by simp
    moreover from i lv have "map Some vs ! i = Some (vs ! i)" by simp
    ultimately have "field_value L (tys ! i) (fs ! i) = Some (vs ! i)" using m by simp
    then have "parse_value L (tys ! i) (fs ! i) = Inr (vs ! i)"
      by (simp add: field_value_def split: sum.splits)
    then show ?thesis by (rule parse_value_has_type)
  qed
  with lv show ?thesis by (simp add: list_all2_conv_all_nth)
qed

lemma row_values_typed: "row_values L tys line = Some vs \<Longrightarrow> list_all2 has_type tys vs"
  by (auto simp: row_values_def split: if_splits dest: field_values_typed)

lemma parsed_rows_typed:
  assumes "parsed_rows L tys lines = Some rows"
  shows "\<forall>row \<in> set rows. list_all2 has_type tys row"
    and "length rows = length (non_blank lines)"
proof -
  from assms have m: "map (row_values L tys) (non_blank lines) = map Some rows"
    by (simp add: parsed_rows_def those_eq_Some)
  then have "length (map (row_values L tys) (non_blank lines)) = length (map Some rows)" by simp
  then show len: "length rows = length (non_blank lines)" by simp
  show "\<forall>row \<in> set rows. list_all2 has_type tys row"
  proof
    fix row assume "row \<in> set rows"
    then obtain i where i: "i < length rows" "rows ! i = row" by (auto simp: in_set_conv_nth)
    with len have "map (row_values L tys) (non_blank lines) ! i = row_values L tys (non_blank lines ! i)"
      by simp
    moreover from i have "map Some rows ! i = Some row" by simp
    ultimately have "row_values L tys (non_blank lines ! i) = Some row" using m by simp
    then show "list_all2 has_type tys row" by (rule row_values_typed)
  qed
qed

lemma push_values_nth:
  "length (push_values i cols vs) = length cols \<and>
   (\<forall>j < length cols. push_values i cols vs ! j =
        (if i \<le> j \<and> j < i + length vs then cols ! j @ [vs ! (j - i)] else cols ! j))"
proof (induction vs arbitrary: i cols)
  case Nil
  show ?case by auto
next
  case (Cons v vs)
  show ?case
  proof (intro conjI allI impI)
    show "length (push_values i cols (v # vs)) = length cols" using Cons.IH by simp
  next
    fix j assume j: "j < length cols"
    let ?cols = "cols[i := cols ! i @ [v]]"
    have "push_values i cols (v # vs) ! j = push_values (Suc i) ?cols vs ! j" by simp
    also have "\<dots> = (if Suc i \<le> j \<and> j < Suc i + length vs
                       then ?cols ! j @ [vs ! (j - Suc i)] else ?cols ! j)"
      using Cons.IH [of "Suc i" ?cols] j by simp
    also have "\<dots> = (if i \<le> j \<and> j < i + length (v # vs)
                       then cols ! j @ [(v # vs) ! (j - i)] else cols ! j)"
    proof (cases "j = i")
      case True
      with j show ?thesis by simp
    next
      case False
      then show ?thesis
        by (cases "Suc i \<le> j") (auto simp: Suc_diff_Suc nth_Cons')
    qed
    finally show "push_values i cols (v # vs) ! j =
        (if i \<le> j \<and> j < i + length (v # vs) then cols ! j @ [(v # vs) ! (j - i)] else cols ! j)" .
  qed
qed

lemma push_values_all:
  "length vs = length cols \<Longrightarrow>
   push_values 0 cols vs = map (\<lambda>i. cols ! i @ [vs ! i]) [0..<length cols]"
  by (rule nth_equalityI) (simp_all add: push_values_nth)

lemma push_rows_eq:
  assumes "\<forall>row \<in> set rows. length row = length (columns result)"
  shows "push_rows result rows =
     result\<lparr>columns := map (\<lambda>i. columns result ! i @ map (\<lambda>row. row ! i) rows)
                           [0..<length (columns result)],
            row_count := row_count result + length rows\<rparr>"
  using assms
proof (induction rows arbitrary: result)
  case Nil
  have "map (\<lambda>i. columns result ! i) [0..<length (columns result)] = columns result"
    by (rule map_nth)
  then show ?case by simp
next
  case (Cons vs rows)
  let ?next = "result\<lparr>columns := push_values 0 (columns result) vs,
                       row_count := Suc (row_count result)\<rparr>"
  from Cons.prems have lv: "length vs = length (columns result)" by simp
  have cn: "columns ?next = map (\<lambda>i. columns result ! i @ [vs ! i]) [0..<length (columns result)]"
    using push_values_all [OF lv] by simp
  then have ln: "length (columns ?next) = length (columns result)" by simp
  with Cons.prems have "\<forall>row \<in> set rows. length row = length (columns ?next)" by simp
  from Cons.IH [OF this]
  have "push_rows ?next rows =
     ?next\<lparr>columns := map (\<lambda>i. columns ?next ! i @ map (\<lambda>row. row ! i) rows)
                           [0..<length (columns ?next)],
            row_count := row_count ?next + length rows\<rparr>" .
  also have "map (\<lambda>i. columns ?next ! i @ map (\<lambda>row. row ! i) rows) [0..<length (columns ?next)]
      = map (\<lambda>i. columns result ! i @ map (\<lambda>row. row ! i) (vs # rows))
            [0..<length (columns result)]"
    unfolding ln by (rule map_cong) (simp_all add: cn)
  finally show ?case by simp
qed

lemma push_rows_default:
  fixes rows :: "'f Value list list"
  assumes "\<forall>row \<in> set rows. length row = length tys"
  shows "push_rows ((default_Columnar tys)\<lparr>names := header\<rparr>) rows = table_of tys header rows"
proof -
  let ?r = "(default_Columnar tys :: 'f Columnar)\<lparr>names := header\<rparr>"
  have c: "columns ?r = replicate (length tys) []" by (simp add: default_Columnar_def)
  from assms have "\<forall>row \<in> set rows. length row = length (columns ?r)" by (simp add: c)
  from push_rows_eq [OF this]
  have "push_rows ?r rows =
     ?r\<lparr>columns := map (\<lambda>i. columns ?r ! i @ map (\<lambda>row. row ! i) rows) [0..<length (columns ?r)],
         row_count := row_count ?r + length rows\<rparr>" .
  also have "map (\<lambda>i. columns ?r ! i @ map (\<lambda>row. row ! i) rows) [0..<length (columns ?r)]
           = map (\<lambda>i. map (\<lambda>row. row ! i) rows) [0..<length tys]"
    unfolding c by (rule map_cong) simp_all
  finally show ?thesis by (simp add: table_of_def default_Columnar_def)
qed

lemma first_getline:
  "getline (open_stream contents) CHR 0x0A = (strm, r) \<Longrightarrow>
     (contents = [] \<longrightarrow> r = None) \<and>
     (contents \<noteq> [] \<longrightarrow> r = Some (first_line contents) \<and>
        pending CHR 0x0A strm = data_lines contents)"
proof (cases "contents = []")
  case True
  assume g: "getline (open_stream contents) CHR 0x0A = (strm, r)"
  from True have "pending CHR 0x0A (open_stream contents) = []" by simp
  from getline_Nil(1) [OF this] g True show ?thesis by simp
next
  case False
  assume g: "getline (open_stream contents) CHR 0x0A = (strm, r)"
  from split_on_unfold [OF False, of "CHR 0x0A"]
  have "pending CHR 0x0A (open_stream contents) = first_line contents # data_lines contents"
    by (simp add: first_line_def data_lines_def)
  from getline_Cons [OF this] g False show ?thesis by simp
qed

lemma try_read_from_csv_eq:
  "try_read_from_csv L tys filepath =
     (case filepath of
        None \<Rightarrow> Inl FileNotFound
      | Some contents \<Rightarrow>
          if header_bad tys contents then Inl InvalidFormat
          else (case parsed_rows L tys (data_lines contents) of
                  None \<Rightarrow> Inl ParseError
                | Some rows \<Rightarrow> Inr (table_of tys (header_fields contents) rows)))"
proof (cases filepath)
  case None
  then show ?thesis by (simp add: try_read_from_csv_def)
next
  case (Some contents)
  obtain strm r where g: "getline (open_stream contents) CHR 0x0A = (strm, r)"
    by (cases "getline (open_stream contents) CHR 0x0A")
  note fg = first_getline [OF g]
  show ?thesis
  proof (cases "first_line contents = []")
    case True
    then have bad: "header_bad tys contents" by (simp add: header_bad_def)
    show ?thesis
    proof (cases "contents = []")
      case True
      with fg Some g bad show ?thesis by (simp add: try_read_from_csv_def)
    next
      case False
      with fg Some g bad True show ?thesis by (simp add: try_read_from_csv_def)
    qed
  next
    case False
    then have ne: "contents \<noteq> []" by (auto simp: first_line_def)
    with fg have r: "r = Some (first_line contents)"
      and p: "pending CHR 0x0A strm = data_lines contents" by simp_all
    let ?hf = "header_fields contents"
    have ph: "pending CHR '','' (open_stream (first_line contents)) = ?hf"
      by (simp add: header_fields_def)
    have k0: "(0::nat) \<le> kColumnCount (default_Columnar tys :: 'a Columnar)" by simp
    have kd: "kColumnCount (default_Columnar tys :: 'a Columnar) = length tys"
      by (simp add: kColumnCount_def default_Columnar_def)
    have hl: "header_loop (open_stream (first_line contents)) (default_Columnar tys :: 'a Columnar) 0 =
      (if length ?hf > length tys then Inl InvalidFormat
       else Inr ((default_Columnar tys)\<lparr>names :=
                   assign_names 0 (names (default_Columnar tys :: 'a Columnar)) ?hf\<rparr>, length ?hf))"
      using header_loop_eq [OF ph k0] by (simp add: kd)
    show ?thesis
    proof (cases "length ?hf = length tys")
      case neq: False
      then have bad: "header_bad tys contents" by (simp add: header_bad_def)
      from neq Some g r False hl bad show ?thesis
        by (simp add: try_read_from_csv_def kColumnCount_def default_Columnar_def)
    next
      case eq: True
      with False have good: "\<not> header_bad tys contents" by (simp add: header_bad_def)
      have an: "assign_names 0 (names (default_Columnar tys :: 'a Columnar)) ?hf = ?hf"
        by (rule assign_names_all) (simp add: default_Columnar_def eq)
      let ?result = "(default_Columnar tys :: 'a Columnar)\<lparr>names := ?hf\<rparr>"
      have ct: "ColumnTypes ?result = tys" by (simp add: default_Columnar_def)
      have "try_read_from_csv L tys filepath = row_loop L strm ?result"
        using Some g r False hl eq an
        by (simp add: try_read_from_csv_def kColumnCount_def default_Columnar_def)
      also have "\<dots> = (case parsed_rows L tys (data_lines contents) of
                          None \<Rightarrow> Inl ParseError
                        | Some rows \<Rightarrow> Inr (push_rows ?result rows))"
        using row_loop_eq [OF p, of L ?result] by (simp only: ct)
      also have "\<dots> = (case parsed_rows L tys (data_lines contents) of
                          None \<Rightarrow> Inl ParseError
                        | Some rows \<Rightarrow> Inr (table_of tys ?hf rows))"
      proof (cases "parsed_rows L tys (data_lines contents)")
        case None
        then show ?thesis by simp
      next
        case (Some rows)
        from parsed_rows_typed(1) [OF Some]
        have "\<forall>row \<in> set rows. length row = length tys"
          by (metis list_all2_lengthD)
        from push_rows_default [OF this] Some show ?thesis by simp
      qed
      finally show ?thesis using Some good by simp
    qed
  qed
qed

lemma table_of_inv:
  assumes "length header = length tys" and "\<forall>row \<in> set rows. list_all2 has_type tys row"
  shows "table_inv (table_of tys header rows)"
proof -
  have "list_all (has_type (tys ! i)) (map (\<lambda>row. row ! i) rows)" if "i < length tys" for i
    using assms(2) that by (auto simp: list_all_iff list_all2_conv_all_nth)
  then show ?thesis
    using assms(1) by (simp add: table_inv_def table_of_def kColumnCount_def list_all2_conv_all_nth)
qed

lemma try_read_from_csv_inv:
  assumes "try_read_from_csv L tys filepath = Inr t"
  shows "table_inv t"
proof -
  from assms obtain contents rows where
    "\<not> header_bad tys contents" and pr: "parsed_rows L tys (data_lines contents) = Some rows"
    and t: "t = table_of tys (header_fields contents) rows"
    unfolding try_read_from_csv_eq by (auto split: option.splits if_splits)
  then have "length (header_fields contents) = length tys" by (simp add: header_bad_def)
  from table_of_inv [OF this parsed_rows_typed(1) [OF pr]] t show ?thesis by simp
qed

section \<open>Claims about the accessor layer and the filter engine\<close>

text \<open>
  C1. When \<open>filter\<close> succeeds on a table, the row count of the result is the number of
  indices below \<open>row_count\<close> at which the predicate holds on the resolved column; the
  retained indices are exactly those, in increasing order, and every column of the
  result holds at position \<open>j\<close> the source value at the \<open>j\<close>-th retained index, so
  that each result row equals the source row it comes from; names and types are those
  of the source. The result is a value of its own: like a \<open>std::vector\<close>, a list does
  not share its elements with the list it was built from.
\<close>

theorem filter_retains_matching_rows:
  assumes inv: "table_inv t"
    and ok: "filter_Columnar t T column_name predicate = Inr r"
  shows "\<exists>c kept. get_column_view t T column_name = Inr c \<and>
      kept = filter (\<lambda>i. predicate (span_at t c i)) [0..<row_count t] \<and>
      row_count r = card {i. i < row_count t \<and> predicate (span_at t c i)} \<and>
      length kept = row_count r \<and>
      set kept = {i. i < row_count t \<and> predicate (span_at t c i)} \<and>
      sorted_wrt (<) kept \<and>
      (\<forall>j < row_count r. \<forall>col < kColumnCount t.
          columns r ! col ! j = columns t ! col ! (kept ! j)) \<and>
      (\<forall>j < row_count r. get_row r j = get_row t (kept ! j)) \<and>
      table_rows r = filter (\<lambda>row. predicate (row ! span_data c)) (table_rows t) \<and>
      names r = names t \<and> ColumnTypes r = ColumnTypes t \<and> table_inv r"
proof -
  from filter_Columnar_Inr [OF inv ok] obtain c where
    c: "get_column_view t T column_name = Inr c" and
    r: "r = \<lparr>ColumnTypes = ColumnTypes t,
                columns = map (\<lambda>src. map (\<lambda>idx. src ! idx)
                     (filter (\<lambda>i. predicate (span_at t c i)) [0..<row_count t])) (columns t),
                names = names t,
                row_count = length (filter (\<lambda>i. predicate (span_at t c i)) [0..<row_count t])\<rparr>"
    by blast
  define kept where "kept = filter (\<lambda>i. predicate (span_at t c i)) [0..<row_count t]"
  have cr: "columns r = map (\<lambda>src. map (\<lambda>idx. src ! idx) kept) (columns t)"
    and rr: "row_count r = length kept"
    and nr: "names r = names t" and tr: "ColumnTypes r = ColumnTypes t"
    by (simp_all add: r kept_def)
  have klen: "length (columns t) = kColumnCount t" using inv by (simp add: table_inv_alt)
  have card: "row_count r = card {i. i < row_count t \<and> predicate (span_at t c i)}"
    unfolding rr kept_def by (rule kept_card)
  have kset: "set kept = {i. i < row_count t \<and> predicate (span_at t c i)}"
    unfolding kept_def by (rule kept_set)
  have ksorted: "sorted_wrt (<) kept" unfolding kept_def by (rule kept_sorted)
  have vals: "\<forall>j < row_count r. \<forall>col < kColumnCount t.
          columns r ! col ! j = columns t ! col ! (kept ! j)"
    by (simp add: cr rr klen)
  have kept_lt: "kept ! j < row_count t" if "j < length kept" for j
    using that kset nth_mem [of j kept] by auto
  have rows: "\<forall>j < row_count r. get_row r j = get_row t (kept ! j)"
  proof (intro allI impI)
    fix j assume "j < row_count r"
    then have j: "j < length kept" by (simp add: rr)
    have "kept ! j < row_count t" by (rule kept_lt [OF j])
    then show "get_row r j = get_row t (kept ! j)"
      using j by (simp add: get_row_def cr rr)
  qed
  from get_column_view_Inr [OF inv c]
  have sd: "span_data c = std_find (names t) column_name"
    by (simp add: get_column_view_at_def)
  have trows: "table_rows r = filter (\<lambda>row. predicate (row ! span_data c)) (table_rows t)"
    unfolding sd by (rule filter_Columnar_rows [OF inv ok])
  have rinv: "table_inv r" by (rule filter_Columnar_inv [OF inv ok])
  have lk: "length kept = row_count r" by (simp add: rr)
  show ?thesis
    apply (rule exI [of _ c])
    apply (rule exI [of _ kept])
    apply (intro conjI)
    by (fact c, fact kept_def, fact card, fact lk, fact kset, fact ksorted, fact vals,
        fact rows, fact trows, fact nr, fact tr, fact rinv)
qed

text \<open>The filter \<open>value > 30\<close> of the test suite on \<open>data/simple.csv\<close>.\<close>

theorem filter_retains_matching_rows_witness:
  "table_inv simple_table \<and>
   filter_Columnar simple_table cpp_int ''value'' (greater_than 30) = Inr simple_above_30 \<and>
   (\<exists>c. get_column_view simple_table cpp_int ''value'' = Inr c \<and>
      row_count simple_above_30 =
        card {i. i < row_count simple_table \<and> greater_than 30 (span_at simple_table c i)} \<and>
      table_rows simple_above_30 =
        filter (\<lambda>row. greater_than 30 (row ! span_data c)) (table_rows simple_table)) \<and>
   names simple_above_30 = names simple_table \<and> table_inv simple_above_30"
proof -
  have h1: "table_inv simple_table" by code_simp
  have h2: "filter_Columnar simple_table cpp_int ''value'' (greater_than 30) = Inr simple_above_30"
    by code_simp
  from filter_retains_matching_rows [OF h1 h2] obtain c where
    "get_column_view simple_table cpp_int ''value'' = Inr c"
    "row_count simple_above_30 =
        card {i. i < row_count simple_table \<and> greater_than 30 (span_at simple_table c i)}"
    "table_rows simple_above_30 =
        filter (\<lambda>row. greater_than 30 (row ! span_data c)) (table_rows simple_table)"
    "names simple_above_30 = names simple_table" "table_inv simple_above_30"
    by blast
  with h1 h2 show ?thesis by blast
qed


lemma get_column_view_at_contents:
  assumes inv: "table_inv t" and f: "f < kColumnCount t"
  shows "span_size (get_column_view_at t f) = row_count t"
    and "span_contents t (get_column_view_at t f) = columns t ! f"
    and "list_all (has_type (ColumnTypes t ! f)) (span_contents t (get_column_view_at t f))"
proof -
  have mem: "columns t ! f \<in> set (columns t)" using inv f by (simp add: table_inv_alt)
  then have len: "length (columns t ! f) = row_count t" using inv by (simp add: table_inv_alt)
  show "span_size (get_column_view_at t f) = row_count t"
    by (simp add: get_column_view_at_def len)
  have "map (\<lambda>i. columns t ! f ! i) [0..<length (columns t ! f)] = columns t ! f"
    by (rule map_nth)
  then show c: "span_contents t (get_column_view_at t f) = columns t ! f"
    by (simp add: span_contents_def span_at_def get_column_view_at_def cong: map_cong)
  show "list_all (has_type (ColumnTypes t ! f)) (span_contents t (get_column_view_at t f))"
    unfolding c list_all_iff using inv f by (simp add: table_inv_alt)
qed

text \<open>
  C7. Lookup by name with an expected type fails with \<open>ColumnNotFound\<close> exactly when
  no column has the name, and with \<open>ParseError\<close> exactly when the column found for the
  name (the only one, when names are distinct) has a stored type other than the expected
  one. On success the view points at that column, has \<open>row_count\<close> elements, shows the
  full contents of the column, and its elements have the expected type. When the lookup
  fails, \<open>filter\<close> returns the same error.
\<close>

theorem column_lookup_by_name:
  assumes inv: "table_inv t"
  shows "(get_column_view t T name = Inl ColumnNotFound \<longleftrightarrow> name \<notin> set (names t)) \<and>
         (get_column_view t T name = Inl ParseError \<longleftrightarrow>
            name \<in> set (names t) \<and> ColumnTypes t ! std_find (names t) name \<noteq> T) \<and>
         (distinct (names t) \<longrightarrow>
            (get_column_view t T name = Inl ParseError \<longleftrightarrow>
               (\<exists>i < kColumnCount t. names t ! i = name \<and> ColumnTypes t ! i \<noteq> T))) \<and>
         (case get_column_view t T name of
            Inl e \<Rightarrow> filter_Columnar t T name predicate = Inl e
          | Inr view \<Rightarrow>
              name \<in> set (names t) \<and> ColumnTypes t ! std_find (names t) name = T \<and>
              view = get_column_view_at t (std_find (names t) name) \<and>
              span_size view = row_count t \<and>
              span_contents t view = columns t ! std_find (names t) name \<and>
              list_all (has_type T) (span_contents t view))"
proof -
  define f where "f = std_find (names t) name"
  have len: "length (names t) = kColumnCount t" using inv by (simp add: table_inv_alt)
  have eq: "get_column_view t T name =
     (if name \<notin> set (names t) then Inl ColumnNotFound
      else if ColumnTypes t ! f = T then Inr (get_column_view_at t f) else Inl ParseError)"
    unfolding f_def by (rule get_column_view_eq [OF len])
  have a: "get_column_view t T name = Inl ColumnNotFound \<longleftrightarrow> name \<notin> set (names t)"
    by (simp add: eq)
  have b: "get_column_view t T name = Inl ParseError \<longleftrightarrow>
            name \<in> set (names t) \<and> ColumnTypes t ! f \<noteq> T"
    by (simp add: eq)
  have c: "get_column_view t T name = Inl ParseError \<longleftrightarrow>
               (\<exists>i < kColumnCount t. names t ! i = name \<and> ColumnTypes t ! i \<noteq> T)"
    if d: "distinct (names t)"
  proof
    assume "get_column_view t T name = Inl ParseError"
    then have m: "name \<in> set (names t)" and ty: "ColumnTypes t ! f \<noteq> T" using b by simp_all
    have "f < kColumnCount t" using std_find_lt [OF m] len by (simp add: f_def)
    moreover have "names t ! f = name" using std_find_nth [OF m] by (simp add: f_def)
    ultimately show "\<exists>i < kColumnCount t. names t ! i = name \<and> ColumnTypes t ! i \<noteq> T"
      using ty by blast
  next
    assume "\<exists>i < kColumnCount t. names t ! i = name \<and> ColumnTypes t ! i \<noteq> T"
    then obtain i where i: "i < length (names t)" "names t ! i = name" "ColumnTypes t ! i \<noteq> T"
      using len by auto
    then have m: "name \<in> set (names t)" using nth_mem by blast
    have "f < length (names t)" using std_find_lt [OF m] by (simp add: f_def)
    moreover have "names t ! f = names t ! i" using std_find_nth [OF m] i(2) by (simp add: f_def)
    ultimately have "f = i" using d i(1) by (simp add: nth_eq_iff_index_eq)
    with m i(3) show "get_column_view t T name = Inl ParseError" using b by simp
  qed
  have e: "(case get_column_view t T name of
            Inl e \<Rightarrow> filter_Columnar t T name predicate = Inl e
          | Inr view \<Rightarrow>
              name \<in> set (names t) \<and> ColumnTypes t ! f = T \<and>
              view = get_column_view_at t f \<and>
              span_size view = row_count t \<and>
              span_contents t view = columns t ! f \<and>
              list_all (has_type T) (span_contents t view))"
  proof (cases "get_column_view t T name")
    case (Inl e)
    then show ?thesis by (simp add: filter_Columnar_def)
  next
    case (Inr view)
    from get_column_view_Inr [OF inv Inr]
    have v: "name \<in> set (names t)" "f < kColumnCount t" "ColumnTypes t ! f = T"
      "view = get_column_view_at t f" by (simp_all add: f_def)
    from get_column_view_at_contents [OF inv v(2)] v Inr show ?thesis by simp
  qed
  from a b c e show ?thesis unfolding f_def by blast
qed

text \<open>
  The three outcomes on the table of \<open>data/simple.csv\<close>, and \<open>long long\<close> asked of
  a column of type \<open>long\<close>.
\<close>

theorem column_lookup_by_name_witness:
  "table_inv simple_table \<and> distinct (names simple_table) \<and>
   get_column_view simple_table cpp_int ''id'' = Inr \<lparr>span_data = 0, span_size = 5\<rparr> \<and>
   span_contents simple_table \<lparr>span_data = 0, span_size = 5\<rparr> = columns simple_table ! 0 \<and>
   get_column_view simple_table (FloatingPoint Double) ''id'' = Inl ParseError \<and>
   filter_Columnar simple_table (FloatingPoint Double) ''id'' (greater_than 0) = Inl ParseError \<and>
   get_column_view simple_table cpp_int ''nonexistent'' = Inl ColumnNotFound \<and>
   filter_Columnar simple_table cpp_int ''nonexistent'' (greater_than 0) = Inl ColumnNotFound \<and>
   table_inv long_int_table \<and>
   get_column_view long_int_table (Integral T_long_long) ''a'' = Inl ParseError \<and>
   get_column_view long_int_table (Integral T_long) ''a'' = Inr \<lparr>span_data = 0, span_size = 1\<rparr>"
proof -
  have h: "table_inv simple_table" by code_simp
  have d: "distinct (names simple_table)" by code_simp
  have v1: "get_column_view simple_table cpp_int ''id'' = Inr \<lparr>span_data = 0, span_size = 5\<rparr>"
    by code_simp
  have f1: "std_find (names simple_table) ''id'' = 0" by code_simp
  have n1: "\<exists>i < kColumnCount simple_table.
              names simple_table ! i = ''id'' \<and> ColumnTypes simple_table ! i \<noteq> FloatingPoint Double"
    by (rule exI [of _ 0]) (simp add: simple_table_def kColumnCount_def)
  have n2: "''nonexistent'' \<notin> set (names simple_table)" by code_simp
  note th = column_lookup_by_name [OF h, of cpp_int "''id''" "greater_than 0", unfolded v1 f1 sum.case]
  from th have c1: "span_contents simple_table \<lparr>span_data = 0, span_size = 5\<rparr> = columns simple_table ! 0"
    by blast
  from column_lookup_by_name [OF h, of "FloatingPoint Double" "''id''" "greater_than 0"] d n1
  have p2: "get_column_view simple_table (FloatingPoint Double) ''id'' = Inl ParseError"
    by blast
  note th2 = column_lookup_by_name [OF h, of "FloatingPoint Double" "''id''" "greater_than 0",
      unfolded p2 sum.case]
  from th2 have c2:
    "filter_Columnar simple_table (FloatingPoint Double) ''id'' (greater_than 0) = Inl ParseError"
    by blast
  from column_lookup_by_name [OF h, of cpp_int "''nonexistent''" "greater_than 0"] n2
  have p3: "get_column_view simple_table cpp_int ''nonexistent'' = Inl ColumnNotFound"
    by blast
  note th3 = column_lookup_by_name [OF h, of cpp_int "''nonexistent''" "greater_than 0",
      unfolded p3 sum.case]
  from th3 have c3:
    "filter_Columnar simple_table cpp_int ''nonexistent'' (greater_than 0) = Inl ColumnNotFound"
    by blast
  have h': "table_inv long_int_table" by code_simp
  have m4: "''a'' \<in> set (names long_int_table)" by (simp add: long_int_table_def)
  have t4: "ColumnTypes long_int_table ! std_find (names long_int_table) ''a'' \<noteq> Integral T_long_long"
    by (simp add: long_int_table_def)
  from column_lookup_by_name [OF h', of "Integral T_long_long" "''a''" "greater_than 0"] m4 t4
  have p4: "get_column_view long_int_table (Integral T_long_long) ''a'' = Inl ParseError"
    by blast
  have p5: "get_column_view long_int_table (Integral T_long) ''a'' = Inr \<lparr>span_data = 0, span_size = 1\<rparr>"
    by code_simp
  from h d v1 c1 p2 c2 p3 c3 h' p4 p5 show ?thesis by blast
qed


text \<open>
  C9. When columns \<open>a\<close> and \<open>b\<close> resolve with their expected types, filtering by
  \<open>pa\<close> on \<open>a\<close> and then by \<open>pb\<close> on \<open>b\<close> succeeds, and the rows of the result are
  the rows of the original table at which \<open>pa\<close> holds on column \<open>a\<close> and \<open>pb\<close> holds
  on column \<open>b\<close>, in their original order.
\<close>

theorem filter_twice_is_conjunction:
  assumes inv: "table_inv t"
    and va: "get_column_view t Ta a = Inr ca"
    and vb: "get_column_view t Tb b = Inr cb"
  shows "\<exists>t1 t2. filter_Columnar t Ta a pa = Inr t1 \<and> filter_Columnar t1 Tb b pb = Inr t2 \<and>
           table_rows t2 =
             filter (\<lambda>row. pa (row ! span_data ca) \<and> pb (row ! span_data cb)) (table_rows t) \<and>
           row_count t2 = length (table_rows t2) \<and>
           names t2 = names t \<and> ColumnTypes t2 = ColumnTypes t \<and> table_inv t2"
proof -
  have len: "length (names t) = kColumnCount t" using inv by (simp add: table_inv_alt)
  from va obtain t1 where f1: "filter_Columnar t Ta a pa = Inr t1"
    by (simp add: filter_Columnar_def Let_def)
  have inv1: "table_inv t1" by (rule filter_Columnar_inv [OF inv f1])
  from filter_Columnar_Inr [OF inv f1]
  have n1: "names t1 = names t" and ty1: "ColumnTypes t1 = ColumnTypes t" by auto
  have len1: "length (names t1) = kColumnCount t1" using inv1 by (simp add: table_inv_alt)
  from get_column_view_Inr [OF inv vb]
  have b: "b \<in> set (names t)" "ColumnTypes t ! std_find (names t) b = Tb"
    and sb: "span_data cb = std_find (names t) b"
    by (simp_all add: get_column_view_at_def)
  from get_column_view_Inr [OF inv va]
  have sa: "span_data ca = std_find (names t) a"
    by (simp add: get_column_view_at_def)
  have "get_column_view t1 Tb b = Inr (get_column_view_at t1 (std_find (names t1) b))"
    using b by (simp add: get_column_view_eq [OF len1] n1 ty1)
  then obtain t2 where f2: "filter_Columnar t1 Tb b pb = Inr t2"
    by (simp add: filter_Columnar_def Let_def)
  have inv2: "table_inv t2" by (rule filter_Columnar_inv [OF inv1 f2])
  from filter_Columnar_Inr [OF inv1 f2]
  have n2: "names t2 = names t" and ty2: "ColumnTypes t2 = ColumnTypes t"
    by (auto simp: n1 ty1)
  have "table_rows t2 = filter (\<lambda>row. pb (row ! std_find (names t) b)) (table_rows t1)"
    using filter_Columnar_rows [OF inv1 f2] by (simp add: n1)
  also have "table_rows t1 = filter (\<lambda>row. pa (row ! std_find (names t) a)) (table_rows t)"
    by (rule filter_Columnar_rows [OF inv f1])
  finally have rows: "table_rows t2 =
      filter (\<lambda>row. pa (row ! span_data ca) \<and> pb (row ! span_data cb)) (table_rows t)"
    by (simp add: sa sb)
  have rc: "row_count t2 = length (table_rows t2)" by (simp add: table_rows_def)
  show ?thesis
    apply (rule exI [of _ t1])
    apply (rule exI [of _ t2])
    apply (intro conjI)
    by (fact f1, fact f2, fact rows, fact rc, fact n2, fact ty2, fact inv2)
qed

text \<open>Two filters in a row on the table of \<open>data/simple.csv\<close>.\<close>

theorem filter_twice_is_conjunction_witness:
  "table_inv simple_table \<and>
   get_column_view simple_table cpp_int ''value'' = Inr \<lparr>span_data = 1, span_size = 5\<rparr> \<and>
   get_column_view simple_table cpp_int ''id'' = Inr \<lparr>span_data = 0, span_size = 5\<rparr> \<and>
   (\<exists>t1 t2. filter_Columnar simple_table cpp_int ''value'' (greater_than 10) = Inr t1 \<and>
       filter_Columnar t1 cpp_int ''id'' (at_most 4) = Inr t2 \<and>
       table_rows t2 =
         filter (\<lambda>row. greater_than 10 (row ! 1) \<and> at_most 4 (row ! 0)) (table_rows simple_table) \<and>
       names t2 = names simple_table)"
proof -
  have h: "table_inv simple_table" by code_simp
  have va: "get_column_view simple_table cpp_int ''value'' = Inr \<lparr>span_data = 1, span_size = 5\<rparr>"
    by code_simp
  have vb: "get_column_view simple_table cpp_int ''id'' = Inr \<lparr>span_data = 0, span_size = 5\<rparr>"
    by code_simp
  from filter_twice_is_conjunction [OF h va vb, of "greater_than 10" "at_most 4"]
  obtain t1 t2 where "filter_Columnar simple_table cpp_int ''value'' (greater_than 10) = Inr t1"
    "filter_Columnar t1 cpp_int ''id'' (at_most 4) = Inr t2"
    "table_rows t2 =
         filter (\<lambda>row. greater_than 10 (row ! 1) \<and> at_most 4 (row ! 0)) (table_rows simple_table)"
    "names t2 = names simple_table"
    by auto
  with h va vb show ?thesis by blast
qed

text \<open>
  C10. When a name occurs at two positions of \<open>names_\<close>, lookup by that name resolves
  to the lowest position bearing it: the view of that column is returned when its type
  is the requested one, and otherwise the call fails with \<open>ParseError\<close>, whatever the
  types of the later columns of that name are. \<open>filter\<close> follows the lookup.
\<close>

theorem duplicate_name_resolves_to_first:
  assumes inv: "table_inv t"
    and ij: "i < j" and j: "j < kColumnCount t"
    and ni: "names t ! i = name" and nj: "names t ! j = name"
  shows "std_find (names t) name \<le> i \<and>
         names t ! std_find (names t) name = name \<and>
         (\<forall>m < std_find (names t) name. names t ! m \<noteq> name) \<and>
         get_column_view t T name =
           (if ColumnTypes t ! std_find (names t) name = T
            then Inr (get_column_view_at t (std_find (names t) name))
            else Inl ParseError) \<and>
         (if ColumnTypes t ! std_find (names t) name = T
          then \<exists>r. filter_Columnar t T name predicate = Inr r \<and>
                 table_rows r =
                   filter (\<lambda>row. predicate (row ! std_find (names t) name)) (table_rows t)
          else filter_Columnar t T name predicate = Inl ParseError)"
proof -
  define f where "f = std_find (names t) name"
  have len: "length (names t) = kColumnCount t" using inv by (simp add: table_inv_alt)
  have i: "i < length (names t)" using ij j len by simp
  then have mem: "name \<in> set (names t)" using ni nth_mem by blast
  have a: "f \<le> i" unfolding f_def by (rule std_find_least [OF i ni])
  have b: "names t ! f = name" unfolding f_def by (rule std_find_nth [OF mem])
  have c: "\<forall>m < f. names t ! m \<noteq> name" unfolding f_def by (simp add: std_find_first)
  have d: "get_column_view t T name =
           (if ColumnTypes t ! f = T then Inr (get_column_view_at t f) else Inl ParseError)"
    using mem by (simp add: get_column_view_eq [OF len] f_def)
  have e: "(if ColumnTypes t ! f = T
          then \<exists>r. filter_Columnar t T name predicate = Inr r \<and>
                 table_rows r = filter (\<lambda>row. predicate (row ! f)) (table_rows t)
          else filter_Columnar t T name predicate = Inl ParseError)"
  proof (cases "ColumnTypes t ! f = T")
    case True
    with d obtain r where r: "filter_Columnar t T name predicate = Inr r"
      by (simp add: filter_Columnar_def Let_def)
    from filter_Columnar_rows [OF inv r] r True show ?thesis by (simp add: f_def)
  next
    case False
    with d show ?thesis by (simp add: filter_Columnar_def)
  qed
  from a b c d e show ?thesis unfolding f_def by blast
qed

text \<open>
  Header \<open>x,x\<close> on \<open>Columnar<int, double>\<close>: asking for \<open>double\<close> fails although the
  second column is a \<open>double\<close>. Header \<open>x,x\<close> on \<open>Columnar<long, long long>\<close>: asking
  for \<open>long long\<close> fails although the second column is a \<open>long long\<close>.
\<close>

theorem duplicate_name_resolves_to_first_witness:
  "table_inv twice_x_table \<and> (0::nat) < 1 \<and> 1 < kColumnCount twice_x_table \<and>
   names twice_x_table ! 0 = ''x'' \<and> names twice_x_table ! 1 = ''x'' \<and>
   ColumnTypes twice_x_table ! 1 = FloatingPoint Double \<and>
   std_find (names twice_x_table) ''x'' = 0 \<and>
   get_column_view twice_x_table (FloatingPoint Double) ''x'' = Inl ParseError \<and>
   filter_Columnar twice_x_table (FloatingPoint Double) ''x'' (\<lambda>v. True) = Inl ParseError \<and>
   get_column_view twice_x_table cpp_int ''x'' = Inr (get_column_view_at twice_x_table 0) \<and>
   table_inv long_x_table \<and> 1 < kColumnCount long_x_table \<and>
   names long_x_table ! 0 = ''x'' \<and> names long_x_table ! 1 = ''x'' \<and>
   ColumnTypes long_x_table ! 1 = Integral T_long_long \<and>
   get_column_view long_x_table (Integral T_long_long) ''x'' = Inl ParseError \<and>
   filter_Columnar long_x_table (Integral T_long_long) ''x'' (\<lambda>v. True) = Inl ParseError \<and>
   get_column_view long_x_table (Integral T_long) ''x'' = Inr (get_column_view_at long_x_table 0)"
proof -
  have h: "table_inv twice_x_table" by code_simp
  have ij: "(0::nat) < 1" by simp
  have j: "1 < kColumnCount twice_x_table" by (simp add: kColumnCount_def twice_x_table_def)
  have n0: "names twice_x_table ! 0 = ''x''" by (simp add: twice_x_table_def)
  have n1: "names twice_x_table ! 1 = ''x''" by (simp add: twice_x_table_def)
  have t1: "ColumnTypes twice_x_table ! 1 = FloatingPoint Double" by (simp add: twice_x_table_def)
  have f: "std_find (names twice_x_table) ''x'' = 0" by (simp add: twice_x_table_def)
  have t0: "ColumnTypes twice_x_table ! 0 \<noteq> FloatingPoint Double"
    "ColumnTypes twice_x_table ! 0 = cpp_int"
    by (simp_all add: twice_x_table_def)
  note d = duplicate_name_resolves_to_first [OF h ij j n0 n1, of "FloatingPoint Double" "\<lambda>v. True",
             unfolded f]
  note e = duplicate_name_resolves_to_first [OF h ij j n0 n1, of cpp_int "\<lambda>v. True", unfolded f]
  from d t0 have c1: "get_column_view twice_x_table (FloatingPoint Double) ''x'' = Inl ParseError"
    "filter_Columnar twice_x_table (FloatingPoint Double) ''x'' (\<lambda>v. True) = Inl ParseError"
    by simp_all
  from e t0 have c2: "get_column_view twice_x_table cpp_int ''x'' = Inr (get_column_view_at twice_x_table 0)"
    by simp
  have h': "table_inv long_x_table" by code_simp
  have j': "1 < kColumnCount long_x_table" by (simp add: kColumnCount_def long_x_table_def)
  have n0': "names long_x_table ! 0 = ''x''" by (simp add: long_x_table_def)
  have n1': "names long_x_table ! 1 = ''x''" by (simp add: long_x_table_def)
  have t1': "ColumnTypes long_x_table ! 1 = Integral T_long_long" by (simp add: long_x_table_def)
  have f': "std_find (names long_x_table) ''x'' = 0" by (simp add: long_x_table_def)
  have t0': "ColumnTypes long_x_table ! 0 \<noteq> Integral T_long_long"
    "ColumnTypes long_x_table ! 0 = Integral T_long"
    by (simp_all add: long_x_table_def)
  note d' = duplicate_name_resolves_to_first [OF h' ij j' n0' n1', of "Integral T_long_long"
              "\<lambda>v. True", unfolded f']
  note e' = duplicate_name_resolves_to_first [OF h' ij j' n0' n1', of "Integral T_long"
              "\<lambda>v. True", unfolded f']
  from d' t0' have c1': "get_column_view long_x_table (Integral T_long_long) ''x'' = Inl ParseError"
    "filter_Columnar long_x_table (Integral T_long_long) ''x'' (\<lambda>v. True) = Inl ParseError"
    by simp_all
  from e' t0' have c2': "get_column_view long_x_table (Integral T_long) ''x'' =
      Inr (get_column_view_at long_x_table 0)"
    by simp
  from h ij j n0 n1 t1 f c1 c2 h' j' n0' n1' t1' c1' c2' show ?thesis by blast
qed

lemma those_eq_None: "those xs = None \<longleftrightarrow> None \<in> set xs"
proof (induction xs)
  case Nil
  show ?case by simp
next
  case (Cons x xs)
  then show ?case by (cases x) (auto split: option.splits)
qed

lemma parse_value_error: "parse_value L T str = Inl e \<Longrightarrow> e = ParseError"
  by (cases T) (auto simp: Let_def split: prod.splits if_splits)

lemma field_value_None: "field_value L T str = None \<longleftrightarrow> parse_value L T str = Inl ParseError"
proof (cases "parse_value L T str")
  case (Inl e)
  with parse_value_error [OF Inl] show ?thesis by (simp add: field_value_def)
next
  case (Inr v)
  then show ?thesis by (simp add: field_value_def)
qed

lemma field_values_None:
  "field_values L tys fs = None \<longleftrightarrow>
     length fs < length tys \<or>
     (\<exists>i < length tys. i < length fs \<and> parse_value L (tys ! i) (fs ! i) = Inl ParseError)"
proof (cases "length fs < length tys")
  case True
  then show ?thesis by (simp add: field_values_def)
next
  case False
  have "None \<in> set (map2 (field_value L) tys fs) \<longleftrightarrow>
        (\<exists>i < length (map2 (field_value L) tys fs). map2 (field_value L) tys fs ! i = None)"
    by (simp only: in_set_conv_nth)
  also have "\<dots> \<longleftrightarrow> (\<exists>i < length tys. field_value L (tys ! i) (fs ! i) = None)"
    using False by auto
  finally have "None \<in> set (map2 (field_value L) tys fs) \<longleftrightarrow>
        (\<exists>i < length tys. field_value L (tys ! i) (fs ! i) = None)" .
  with False show ?thesis
    by (auto simp: field_values_def those_eq_None field_value_None)
qed

lemma row_values_None:
  "row_values L tys line = None \<longleftrightarrow>
     length (split_on CHR '','' line) < length tys \<or>
     (\<exists>i < length tys. i < length (split_on CHR '','' line) \<and>
        parse_value L (tys ! i) (split_on CHR '','' line ! i) = Inl ParseError) \<or>
     trailing_content (length tys) line"
  unfolding row_values_def using field_values_None [of L tys "split_on CHR '','' line"]
  by (cases "trailing_content (length tys) line") simp_all

lemma None_in_map: "None \<in> set (map f xs) \<longleftrightarrow> (\<exists>x \<in> set xs. f x = None)"
  by (induction xs) auto

lemma parsed_rows_None:
  "parsed_rows L tys lines = None \<longleftrightarrow>
     (\<exists>line \<in> set (non_blank lines). row_values L tys line = None)"
  by (simp only: parsed_rows_def those_eq_None None_in_map)

lemma parsed_rows_Some:
  assumes "parsed_rows L tys lines = Some rows"
  shows "length rows = length (non_blank lines)"
    and "\<forall>i < length rows. row_values L tys (non_blank lines ! i) = Some (rows ! i)"
proof -
  from assms have m: "map (row_values L tys) (non_blank lines) = map Some rows"
    by (simp add: parsed_rows_def those_eq_Some)
  then have "length (map (row_values L tys) (non_blank lines)) = length (map Some rows)" by simp
  then show len: "length rows = length (non_blank lines)" by simp
  show "\<forall>i < length rows. row_values L tys (non_blank lines ! i) = Some (rows ! i)"
  proof (intro allI impI)
    fix i assume i: "i < length rows"
    with len have "map (row_values L tys) (non_blank lines) ! i = row_values L tys (non_blank lines ! i)"
      by simp
    moreover from i have "map Some rows ! i = Some (rows ! i)" by simp
    ultimately show "row_values L tys (non_blank lines ! i) = Some (rows ! i)" using m by simp
  qed
qed

section \<open>Claims about the loader\<close>

text \<open>
  C2. The loader is all-or-nothing. Its result is \<open>FileNotFound\<close> when the file cannot
  be opened, \<open>InvalidFormat\<close> when the header is bad, \<open>ParseError\<close> when some
  non-empty data line has no row values (it is short, one of its fields does not parse,
  or something other than white space follows its last field), and otherwise the table
  holding the header's names and one row for every non-empty data line, in order. An
  error result carries no table.
\<close>

theorem load_all_or_nothing:
  "try_read_from_csv L tys filepath =
     (case filepath of
        None \<Rightarrow> Inl FileNotFound
      | Some contents \<Rightarrow>
          if header_bad tys contents then Inl InvalidFormat
          else (case parsed_rows L tys (data_lines contents) of
                  None \<Rightarrow> Inl ParseError
                | Some rows \<Rightarrow> Inr (table_of tys (header_fields contents) rows))) \<and>
   (parsed_rows L tys lines = None \<longleftrightarrow>
      (\<exists>line \<in> set (non_blank lines). row_values L tys line = None)) \<and>
   (\<forall>rows. parsed_rows L tys lines = Some rows \<longrightarrow>
      length rows = length (non_blank lines) \<and>
      (\<forall>i < length rows. row_values L tys (non_blank lines ! i) = Some (rows ! i))) \<and>
   (row_values L tys line = None \<longleftrightarrow>
      length (split_on CHR '','' line) < length tys \<or>
      (\<exists>i < length tys. i < length (split_on CHR '','' line) \<and>
         parse_value L (tys ! i) (split_on CHR '','' line ! i) = Inl ParseError) \<or>
      trailing_content (length tys) line)"
proof (intro conjI)
  show "try_read_from_csv L tys filepath =
     (case filepath of
        None \<Rightarrow> Inl FileNotFound
      | Some contents \<Rightarrow>
          if header_bad tys contents then Inl InvalidFormat
          else (case parsed_rows L tys (data_lines contents) of
                  None \<Rightarrow> Inl ParseError
                | Some rows \<Rightarrow> Inr (table_of tys (header_fields contents) rows)))"
    by (rule try_read_from_csv_eq)
  show "parsed_rows L tys lines = None \<longleftrightarrow>
      (\<exists>line \<in> set (non_blank lines). row_values L tys line = None)"
    by (rule parsed_rows_None)
  show "\<forall>rows. parsed_rows L tys lines = Some rows \<longrightarrow>
      length rows = length (non_blank lines) \<and>
      (\<forall>i < length rows. row_values L tys (non_blank lines ! i) = Some (rows ! i))"
    using parsed_rows_Some [of L tys lines] by blast
  show "row_values L tys line = None \<longleftrightarrow>
      length (split_on CHR '','' line) < length tys \<or>
      (\<exists>i < length tys. i < length (split_on CHR '','' line) \<and>
         parse_value L (tys ! i) (split_on CHR '','' line ! i) = Inl ParseError) \<or>
      trailing_content (length tys) line"
    by (rule row_values_None)
qed

text \<open>
  \<open>data/simple.csv\<close> loads into the table of five rows; the same file with its last
  line cut after the first field does not load.
\<close>

theorem load_all_or_nothing_witness:
  "try_read_from_csv plain_platform [cpp_int, cpp_int] (Some simple_csv) = Inr simple_table \<and>
   parsed_rows plain_platform [cpp_int, cpp_int] (data_lines simple_csv) =
     Some [[IntV 1, IntV 10], [IntV 2, IntV 20], [IntV 3, IntV 30], [IntV 4, IntV 40],
           [IntV 5, IntV 50]] \<and>
   row_values plain_platform [cpp_int, cpp_int] (non_blank (data_lines simple_csv) ! 4) =
     Some [IntV 5, IntV 50] \<and>
   try_read_from_csv plain_platform [cpp_int, cpp_int] (Some short_row_csv) = Inl ParseError \<and>
   row_values plain_platform [cpp_int, cpp_int] ''2'' = None"
proof -
  note th = load_all_or_nothing [of plain_platform "[cpp_int, cpp_int]" "Some simple_csv"
              "data_lines simple_csv" "''2''"]
  have p: "parsed_rows plain_platform [cpp_int, cpp_int] (data_lines simple_csv) =
     Some [[IntV 1, IntV 10], [IntV 2, IntV 20], [IntV 3, IntV 30], [IntV 4, IntV 40],
           [IntV 5, IntV 50]]"
    by code_simp
  have h: "\<not> header_bad [cpp_int, cpp_int] simple_csv" by code_simp
  have t: "table_of [cpp_int, cpp_int] (header_fields simple_csv)
       [[IntV 1, IntV 10], [IntV 2, IntV 20], [IntV 3, IntV 30], [IntV 4, IntV 40],
           [IntV 5, IntV 50]] = (simple_table :: unit Columnar)"
    by code_simp
  from th have "try_read_from_csv plain_platform [cpp_int, cpp_int] (Some simple_csv) =
        (if header_bad [cpp_int, cpp_int] simple_csv then Inl InvalidFormat
          else (case parsed_rows plain_platform [cpp_int, cpp_int] (data_lines simple_csv) of
                  None \<Rightarrow> Inl ParseError
                | Some rows \<Rightarrow> Inr (table_of [cpp_int, cpp_int] (header_fields simple_csv) rows)))"
    by simp
  then have a: "try_read_from_csv plain_platform [cpp_int, cpp_int] (Some simple_csv) = Inr simple_table"
    by (simp add: p h t)
  from th p have "\<forall>i < 5. row_values plain_platform [cpp_int, cpp_int] (non_blank (data_lines simple_csv) ! i)
       = Some ([[IntV 1, IntV 10], [IntV 2, IntV 20], [IntV 3, IntV 30], [IntV 4, IntV 40],
           [IntV 5, IntV 50]] ! i)"
    by simp
  then have b: "row_values plain_platform [cpp_int, cpp_int] (non_blank (data_lines simple_csv) ! 4) =
     Some [IntV 5, IntV 50]"
    by simp
  have sh: "length (split_on CHR '','' ''2'') < length [cpp_int, cpp_int]" by simp
  with th have c: "row_values plain_platform [cpp_int, cpp_int] ''2'' = None" by blast
  have m: "''2'' \<in> set (non_blank (data_lines short_row_csv))" by code_simp
  have h2: "\<not> header_bad [cpp_int, cpp_int] short_row_csv" by code_simp
  note th2 = load_all_or_nothing [of plain_platform "[cpp_int, cpp_int]" "Some short_row_csv"
              "data_lines short_row_csv" "''2''"]
  from th2 m c have "parsed_rows plain_platform [cpp_int, cpp_int] (data_lines short_row_csv) = None"
    by blast
  with th2 h2 have d: "try_read_from_csv plain_platform [cpp_int, cpp_int] (Some short_row_csv) = Inl ParseError"
    by simp
  from a p b c d show ?thesis by blast
qed

text \<open>
  C5, as stated, does not hold. The header \<open>id,value,\<close> splits on its commas into
  three fields, the last one empty. With two declared columns the field count differs
  from the column count and yet the file loads, with names \<open>id\<close> and \<open>value\<close>; with
  three declared columns the counts agree and yet the load fails with \<open>InvalidFormat\<close>.
\<close>

theorem trailing_comma_header_is_accepted:
  "spec_split_on CHR '','' (first_line trailing_comma_header_csv) = [''id'', ''value'', []] \<and>
   try_read_from_csv plain_platform [cpp_int, cpp_int] (Some trailing_comma_header_csv) =
     Inr \<lparr>ColumnTypes = [cpp_int, cpp_int], columns = [[], []],
          names = [''id'', ''value''], row_count = 0\<rparr> \<and>
   try_read_from_csv plain_platform [cpp_int, cpp_int, cpp_int] (Some trailing_comma_header_csv) =
     Inl InvalidFormat"
  by code_simp

text \<open>
  C5, amended. The loader fails with \<open>FileNotFound\<close> exactly when the file cannot be
  opened. When it can, the loader fails with \<open>InvalidFormat\<close> exactly when the file is
  empty, its first line is empty, or the number of header fields differs from the
  number of declared column types, where the header fields are the pieces between the
  commas of the first line except that a comma at the very end of the line does not
  start a further, empty field: they are one more than the commas, or as many as the
  commas when the line ends with one. Otherwise the header loop assigns these fields to
  the names, position by position, and they are the column names of the loaded table.
\<close>

theorem load_header:
  fixes L :: "'f platform"
  shows
  "(try_read_from_csv L tys filepath = Inl FileNotFound \<longleftrightarrow> filepath = None) \<and>
   (try_read_from_csv L tys (Some contents) = Inl InvalidFormat \<longleftrightarrow>
      contents = [] \<or> first_line contents = [] \<or>
      length (split_on CHR '','' (first_line contents)) \<noteq> length tys) \<and>
   (first_line contents \<noteq> [] \<longrightarrow>
      split_on CHR '','' (first_line contents) =
        (if last (first_line contents) = CHR '',''
         then butlast (spec_split_on CHR '','' (first_line contents))
         else spec_split_on CHR '','' (first_line contents)) \<and>
      length (split_on CHR '','' (first_line contents)) =
        length (filter (\<lambda>c. c = CHR '','') (first_line contents)) +
        (if last (first_line contents) = CHR '','' then 0 else 1)) \<and>
   (length (split_on CHR '','' (first_line contents)) = length tys \<longrightarrow>
      header_loop (open_stream (first_line contents)) (default_Columnar tys :: 'f Columnar) 0 =
        Inr ((default_Columnar tys)\<lparr>names := split_on CHR '','' (first_line contents)\<rparr>,
             length tys)) \<and>
   (\<forall>t. try_read_from_csv L tys (Some contents) = Inr t \<longrightarrow>
      column_names t = split_on CHR '','' (first_line contents) \<and>
      length (column_names t) = length tys \<and>
      (\<forall>i < length tys. names t ! i = split_on CHR '','' (first_line contents) ! i))"
proof (intro conjI)
  show "try_read_from_csv L tys filepath = Inl FileNotFound \<longleftrightarrow> filepath = None"
    unfolding try_read_from_csv_eq by (auto split: option.splits)
  show "try_read_from_csv L tys (Some contents) = Inl InvalidFormat \<longleftrightarrow>
      contents = [] \<or> first_line contents = [] \<or>
      length (split_on CHR '','' (first_line contents)) \<noteq> length tys"
    unfolding try_read_from_csv_eq
    by (auto simp: header_bad_def header_fields_def first_line_def split: option.splits)
  show "first_line contents \<noteq> [] \<longrightarrow>
      split_on CHR '','' (first_line contents) =
        (if last (first_line contents) = CHR '',''
         then butlast (spec_split_on CHR '','' (first_line contents))
         else spec_split_on CHR '','' (first_line contents)) \<and>
      length (split_on CHR '','' (first_line contents)) =
        length (filter (\<lambda>c. c = CHR '','') (first_line contents)) +
        (if last (first_line contents) = CHR '','' then 0 else 1)"
    using length_split_on [of "first_line contents" "CHR '',''"]
      split_on_spec [of "first_line contents" "CHR '',''"] by blast
  show "length (split_on CHR '','' (first_line contents)) = length tys \<longrightarrow>
      header_loop (open_stream (first_line contents)) (default_Columnar tys :: 'f Columnar) 0 =
        Inr ((default_Columnar tys)\<lparr>names := split_on CHR '','' (first_line contents)\<rparr>,
             length tys)"
  proof
    assume eq: "length (split_on CHR '','' (first_line contents)) = length tys"
    have ph: "pending CHR '','' (open_stream (first_line contents)) =
              split_on CHR '','' (first_line contents)" by simp
    have k0: "(0::nat) \<le> kColumnCount (default_Columnar tys :: 'f Columnar)" by simp
    have an: "assign_names 0 (names (default_Columnar tys :: 'f Columnar))
                (split_on CHR '','' (first_line contents)) = split_on CHR '','' (first_line contents)"
      by (rule assign_names_all) (simp add: default_Columnar_def eq)
    from header_loop_eq [OF ph k0] eq an
    show "header_loop (open_stream (first_line contents)) (default_Columnar tys :: 'f Columnar) 0 =
        Inr ((default_Columnar tys)\<lparr>names := split_on CHR '','' (first_line contents)\<rparr>,
             length tys)"
      by (simp add: kColumnCount_def default_Columnar_def)
  qed
  show "\<forall>t. try_read_from_csv L tys (Some contents) = Inr t \<longrightarrow>
      column_names t = split_on CHR '','' (first_line contents) \<and>
      length (column_names t) = length tys \<and>
      (\<forall>i < length tys. names t ! i = split_on CHR '','' (first_line contents) ! i)"
    unfolding try_read_from_csv_eq
    by (auto simp: header_bad_def header_fields_def table_of_def column_names_def
             split: option.splits if_splits)
qed


text \<open>
  A path that does not open, an empty file, a header of one field for two declared
  columns, \<open>data/simple.csv\<close>, whose header fields become the column names, and the
  header \<open>id,value,\<close>, which has the two fields \<open>id\<close> and \<open>value\<close>.
\<close>

theorem load_header_witness:
  "try_read_from_csv plain_platform [cpp_int, cpp_int] None = Inl FileNotFound \<and>
   try_read_from_csv plain_platform [cpp_int, cpp_int] (Some []) = Inl InvalidFormat \<and>
   try_read_from_csv plain_platform [cpp_int, cpp_int] (Some ''id'') = Inl InvalidFormat \<and>
   length (split_on CHR '','' (first_line simple_csv)) = length [cpp_int, cpp_int] \<and>
   try_read_from_csv plain_platform [cpp_int, cpp_int] (Some simple_csv) = Inr simple_table \<and>
   column_names simple_table = split_on CHR '','' (first_line simple_csv) \<and>
   split_on CHR '','' (first_line simple_csv) = [''id'', ''value''] \<and>
   first_line trailing_comma_header_csv \<noteq> [] \<and>
   last (first_line trailing_comma_header_csv) = CHR '','' \<and>
   split_on CHR '','' (first_line trailing_comma_header_csv) =
     butlast (spec_split_on CHR '','' (first_line trailing_comma_header_csv)) \<and>
   length (split_on CHR '','' (first_line trailing_comma_header_csv)) = 2"
proof -
  have a: "try_read_from_csv plain_platform [cpp_int, cpp_int] None = Inl FileNotFound"
    using load_header [of plain_platform "[cpp_int, cpp_int]" None "[]"] by simp
  have b: "try_read_from_csv plain_platform [cpp_int, cpp_int] (Some []) = Inl InvalidFormat"
    using load_header [of plain_platform "[cpp_int, cpp_int]" _ "[]"] by simp
  have "length (split_on CHR '','' (first_line ''id'')) \<noteq> length [cpp_int, cpp_int]" by code_simp
  then have c: "try_read_from_csv plain_platform [cpp_int, cpp_int] (Some ''id'') = Inl InvalidFormat"
    using load_header [of plain_platform "[cpp_int, cpp_int]" _ "''id''"] by blast
  have d: "length (split_on CHR '','' (first_line simple_csv)) = length [cpp_int, cpp_int]"
    by code_simp
  have e: "try_read_from_csv plain_platform [cpp_int, cpp_int] (Some simple_csv) = Inr simple_table"
    by code_simp
  from load_header [of plain_platform "[cpp_int, cpp_int]" _ simple_csv] e
  have f: "column_names simple_table = split_on CHR '','' (first_line simple_csv)" by blast
  have g: "split_on CHR '','' (first_line simple_csv) = [''id'', ''value'']" by code_simp
  have h1: "first_line trailing_comma_header_csv \<noteq> []" by code_simp
  have h2: "last (first_line trailing_comma_header_csv) = CHR '',''" by code_simp
  have h3: "length (filter (\<lambda>c. c = CHR '','') (first_line trailing_comma_header_csv)) = 2"
    by code_simp
  from load_header [of plain_platform "[cpp_int, cpp_int]" None trailing_comma_header_csv] h1
  have k: "split_on CHR '','' (first_line trailing_comma_header_csv) =
        (if last (first_line trailing_comma_header_csv) = CHR '',''
         then butlast (spec_split_on CHR '','' (first_line trailing_comma_header_csv))
         else spec_split_on CHR '','' (first_line trailing_comma_header_csv))"
    and l: "length (split_on CHR '','' (first_line trailing_comma_header_csv)) =
        length (filter (\<lambda>c. c = CHR '','') (first_line trailing_comma_header_csv)) +
        (if last (first_line trailing_comma_header_csv) = CHR '','' then 0 else 1)"
    by blast+
  from k have i1: "split_on CHR '','' (first_line trailing_comma_header_csv) =
     butlast (spec_split_on CHR '','' (first_line trailing_comma_header_csv))"
    by (simp only: h2 refl if_True)
  from l have i3: "length (split_on CHR '','' (first_line trailing_comma_header_csv)) = 2"
    by (simp only: h2 h3 refl if_True)
  from a b c d e f g h1 h2 i1 i3 show ?thesis by blast
qed

text \<open>
  C4. When a file loads, the row count of the table is the number of non-empty data
  lines, the column count is the number of declared types, and every column holds
  \<open>row_count\<close> elements. A file with a valid header and no data line other than empty
  ones loads, with \<open>row_count = 0\<close> and the header fields as column names.
\<close>

theorem load_counts:
  fixes L :: "'f platform"
  shows
  "(\<forall>t. try_read_from_csv L tys (Some contents) = Inr t \<longrightarrow>
      row_count t = length (filter (\<lambda>line. line \<noteq> []) (data_lines contents)) \<and>
      num_rows t = length (filter (\<lambda>line. line \<noteq> []) (data_lines contents)) \<and>
      num_cols t = length tys \<and>
      length (columns t) = length tys \<and>
      (\<forall>column \<in> set (columns t). length column = row_count t)) \<and>
   (first_line contents \<noteq> [] \<and>
    length (split_on CHR '','' (first_line contents)) = length tys \<and>
    filter (\<lambda>line. line \<noteq> []) (data_lines contents) = [] \<longrightarrow>
      (\<exists>t. try_read_from_csv L tys (Some contents) = Inr t \<and>
           row_count t = 0 \<and> num_rows t = 0 \<and> num_cols t = length tys \<and>
           column_names t = split_on CHR '','' (first_line contents) \<and>
           columns t = replicate (length tys) []))"
proof (intro conjI allI impI)
  fix t :: "'f Columnar"
  assume ok: "try_read_from_csv L tys (Some contents) = Inr t"
  then obtain rows where pr: "parsed_rows L tys (data_lines contents) = Some rows"
    and t: "t = table_of tys (header_fields contents) rows"
    unfolding try_read_from_csv_eq by (auto split: option.splits if_splits)
  from parsed_rows_Some(1) [OF pr]
  have len: "length rows = length (filter (\<lambda>line. line \<noteq> []) (data_lines contents))"
    by (simp add: non_blank_def)
  show "row_count t = length (filter (\<lambda>line. line \<noteq> []) (data_lines contents))"
    using len by (simp add: t table_of_def)
  then show "num_rows t = length (filter (\<lambda>line. line \<noteq> []) (data_lines contents))"
    by (simp add: num_rows_def)
  show "num_cols t = length tys" by (simp add: t table_of_def num_cols_def kColumnCount_def)
  show "length (columns t) = length tys" by (simp add: t table_of_def)
  show "\<forall>column \<in> set (columns t). length column = row_count t"
    by (auto simp: t table_of_def)
next
  assume h: "first_line contents \<noteq> [] \<and>
    length (split_on CHR '','' (first_line contents)) = length tys \<and>
    filter (\<lambda>line. line \<noteq> []) (data_lines contents) = []"
  then have good: "\<not> header_bad tys contents" by (simp add: header_bad_def header_fields_def)
  from h have "parsed_rows L tys (data_lines contents) = Some []"
    by (simp add: parsed_rows_def non_blank_def)
  with good have "try_read_from_csv L tys (Some contents) =
      Inr (table_of tys (header_fields contents) [])"
    by (simp add: try_read_from_csv_eq)
  moreover have "map (\<lambda>i. []) [0..<length tys] = replicate (length tys) []"
    by (simp add: map_replicate_const)
  ultimately show "\<exists>t. try_read_from_csv L tys (Some contents) = Inr t \<and>
           row_count t = 0 \<and> num_rows t = 0 \<and> num_cols t = length tys \<and>
           column_names t = split_on CHR '','' (first_line contents) \<and>
           columns t = replicate (length tys) []"
    by (simp add: table_of_def num_rows_def num_cols_def kColumnCount_def column_names_def
          header_fields_def)
qed

text \<open>\<open>data/simple.csv\<close> has five data lines; \<open>data/empty_with_header.csv\<close> has none.\<close>

theorem load_counts_witness:
  "try_read_from_csv plain_platform [cpp_int, cpp_int] (Some simple_csv) = Inr simple_table \<and>
   row_count simple_table = length (filter (\<lambda>line. line \<noteq> []) (data_lines simple_csv)) \<and>
   row_count simple_table = 5 \<and>
   list_all (\<lambda>column. length column = row_count simple_table) (columns simple_table) \<and>
   first_line empty_with_header_csv \<noteq> [] \<and>
   length (split_on CHR '','' (first_line empty_with_header_csv)) = length [cpp_int, cpp_int] \<and>
   filter (\<lambda>line. line \<noteq> []) (data_lines empty_with_header_csv) = [] \<and>
   (\<exists>t. try_read_from_csv plain_platform [cpp_int, cpp_int] (Some empty_with_header_csv) = Inr t \<and>
        row_count t = 0 \<and> column_names t = [''id'', ''value''])"
proof -
  have a: "try_read_from_csv plain_platform [cpp_int, cpp_int] (Some simple_csv) = Inr simple_table"
    by code_simp
  from load_counts [of plain_platform "[cpp_int, cpp_int]" simple_csv] a
  have b: "row_count simple_table = length (filter (\<lambda>line. line \<noteq> []) (data_lines simple_csv))"
    and c0: "\<forall>column \<in> set (columns simple_table). length column = row_count simple_table"
    by blast+
  from c0 have c: "list_all (\<lambda>column. length column = row_count simple_table) (columns simple_table)"
    by (simp only: list_all_iff)
  have d: "row_count simple_table = 5" by (simp add: simple_table_def)
  have e: "first_line empty_with_header_csv \<noteq> []" by code_simp
  have f: "length (split_on CHR '','' (first_line empty_with_header_csv)) = length [cpp_int, cpp_int]"
    by code_simp
  have g: "filter (\<lambda>line. line \<noteq> []) (data_lines empty_with_header_csv) = []" by code_simp
  have s: "split_on CHR '','' (first_line empty_with_header_csv) = [''id'', ''value'']"
    by code_simp
  from load_counts [of plain_platform "[cpp_int, cpp_int]" empty_with_header_csv] e f g
  obtain t where "try_read_from_csv plain_platform [cpp_int, cpp_int] (Some empty_with_header_csv) = Inr t"
    "row_count t = 0" "column_names t = split_on CHR '','' (first_line empty_with_header_csv)"
    by blast
  then have h: "\<exists>t. try_read_from_csv plain_platform [cpp_int, cpp_int] (Some empty_with_header_csv) = Inr t \<and>
        row_count t = 0 \<and> column_names t = [''id'', ''value'']"
    using s by auto
  from a b c d e f g h show ?thesis by blast
qed

text \<open>
  C8. On a loaded table \<open>get_row\<close> fails with \<open>RowIndexOutOfBounds\<close> exactly when the
  index is not below \<open>row_count\<close>. Below it, \<open>get_row\<close> returns one value per column,
  in schema order, and the value at position \<open>i\<close> is the element at that index of the
  view of column \<open>i\<close>, which lies within the view and has the column's type.
\<close>

theorem row_matches_views:
  assumes "try_read_from_csv L tys filepath = Inr t"
  shows "(get_row t index = Inl RowIndexOutOfBounds \<longleftrightarrow> index \<ge> row_count t) \<and>
         (index < row_count t \<longrightarrow>
            (\<exists>row. get_row t index = Inr row \<and> length row = kColumnCount t \<and>
               (\<forall>i < kColumnCount t.
                   index < span_size (get_column_view_at t i) \<and>
                   row ! i = span_at t (get_column_view_at t i) index \<and>
                   has_type (ColumnTypes t ! i) (row ! i))))"
proof -
  have inv: "table_inv t" by (rule try_read_from_csv_inv [OF assms])
  then have k: "length (columns t) = kColumnCount t"
    and len: "\<forall>c \<in> set (columns t). length c = row_count t"
    and typed: "\<forall>i < kColumnCount t. \<forall>v \<in> set (columns t ! i). has_type (ColumnTypes t ! i) v"
    by (simp_all add: table_inv_alt)
  have a: "get_row t index = Inl RowIndexOutOfBounds \<longleftrightarrow> index \<ge> row_count t"
    by (simp add: get_row_def)
  have b: "\<exists>row. get_row t index = Inr row \<and> length row = kColumnCount t \<and>
               (\<forall>i < kColumnCount t.
                   index < span_size (get_column_view_at t i) \<and>
                   row ! i = span_at t (get_column_view_at t i) index \<and>
                   has_type (ColumnTypes t ! i) (row ! i))"
    if lt: "index < row_count t"
  proof -
    let ?row = "map (\<lambda>column. column ! index) (columns t)"
    have g: "get_row t index = Inr ?row" using lt by (simp add: get_row_def)
    have l: "length ?row = kColumnCount t" by (simp add: k)
    have e: "index < span_size (get_column_view_at t i) \<and>
             ?row ! i = span_at t (get_column_view_at t i) index \<and>
             has_type (ColumnTypes t ! i) (?row ! i)" if i: "i < kColumnCount t" for i
    proof -
      from i k have mem: "columns t ! i \<in> set (columns t)" by simp
      with len have li: "length (columns t ! i) = row_count t" by simp
      with lt have "columns t ! i ! index \<in> set (columns t ! i)" by simp
      with typed i have "has_type (ColumnTypes t ! i) (columns t ! i ! index)" by simp
      with i k li lt show ?thesis
        by (simp add: get_column_view_at_def span_at_def)
    qed
    from g l e show ?thesis by blast
  qed
  from a b show ?thesis by blast
qed

text \<open>Rows 2 and 5 of the table loaded from \<open>data/simple.csv\<close>.\<close>

theorem row_matches_views_witness:
  "try_read_from_csv plain_platform [cpp_int, cpp_int] (Some simple_csv) = Inr simple_table \<and>
   get_row simple_table 5 = Inl RowIndexOutOfBounds \<and>
   (2::nat) < row_count simple_table \<and>
   (\<exists>row. get_row simple_table 2 = Inr row \<and> length row = kColumnCount simple_table \<and>
      (\<forall>i < kColumnCount simple_table.
          row ! i = span_at simple_table (get_column_view_at simple_table i) 2)) \<and>
   get_row simple_table 2 = Inr [IntV 3, IntV 30]"
proof -
  have a: "try_read_from_csv plain_platform [cpp_int, cpp_int] (Some simple_csv) = Inr simple_table"
    by code_simp
  have b: "5 \<ge> row_count simple_table" by (simp add: simple_table_def)
  have c: "(2::nat) < row_count simple_table" by (simp add: simple_table_def)
  from row_matches_views [OF a, of 5] b
  have d: "get_row simple_table 5 = Inl RowIndexOutOfBounds" by blast
  from row_matches_views [OF a, of 2] c
  have e: "\<exists>row. get_row simple_table 2 = Inr row \<and> length row = kColumnCount simple_table \<and>
      (\<forall>i < kColumnCount simple_table.
          row ! i = span_at simple_table (get_column_view_at simple_table i) 2)"
    by blast
  have f: "get_row simple_table 2 = Inr [IntV 3, IntV 30]" by code_simp
  from a c d e f show ?thesis by blast
qed

text \<open>
  C3, as stated, does not hold: a data line may continue after its last schema field and
  still be accepted. In the file below the line \<open>1,2, \<close> has a third field, a space,
  after the two fields of the schema, and the load succeeds.
\<close>

theorem trailing_space_row_is_accepted:
  "data_lines trailing_space_csv = [''1,2, ''] \<and>
   split_on CHR '','' ''1,2, '' = [''1'', ''2'', '' ''] \<and>
   skip_fields 2 (Some ''1,2, '') = Some '' '' \<and>
   try_read_from_csv plain_platform [cpp_int, cpp_int] (Some trailing_space_csv) =
     Inr \<lparr>ColumnTypes = [cpp_int, cpp_int], columns = [[IntV 1], [IntV 2]],
          names = [''id'', ''value''], row_count = 1\<rparr>"
  by code_simp

text \<open>
  C3, amended. When the header is valid, a non-empty data line that has fewer fields
  than the schema, or in which a character other than white space is left after all
  schema fields, each with the comma that ends it, have been taken, makes the load fail
  with \<open>ParseError\<close>. A line with enough fields whose schema fields all parse, and in
  which nothing or only white space is left after them, passes the row check. The
  number of fields of a line is the number of its commas plus one, except that a comma
  at the very end of the line does not start a further field.
\<close>

theorem bad_row_is_parse_error:
  "(\<not> header_bad tys contents \<and> line \<in> set (data_lines contents) \<and> line \<noteq> [] \<and>
    (length (split_on CHR '','' line) < length tys \<or>
     (\<exists>r. skip_fields (length tys) (Some line) = Some r \<and> (\<exists>c \<in> set r. \<not> isspace c)))
    \<longrightarrow> try_read_from_csv L tys (Some contents) = Inl ParseError) \<and>
   (ColumnTypes result = tys \<and> length tys \<le> length (split_on CHR '','' line) \<and>
    (\<forall>i < length tys. \<exists>v. parse_value L (tys ! i) (split_on CHR '','' line ! i) = Inr v) \<and>
    (\<forall>r. skip_fields (length tys) (Some line) = Some r \<longrightarrow> (\<forall>c \<in> set r. isspace c))
    \<longrightarrow> snd (parse_row L line result)) \<and>
   (line \<noteq> [] \<longrightarrow>
      length (split_on CHR '','' line) =
        length (filter (\<lambda>c. c = CHR '','') line) + (if last line = CHR '','' then 0 else 1))"
proof (intro conjI impI)
  show "length (split_on CHR '','' line) =
        length (filter (\<lambda>c. c = CHR '','') line) + (if last line = CHR '','' then 0 else 1)"
    if "line \<noteq> []"
    using that by (rule length_split_on)
next
  assume h: "\<not> header_bad tys contents \<and> line \<in> set (data_lines contents) \<and> line \<noteq> [] \<and>
    (length (split_on CHR '','' line) < length tys \<or>
     (\<exists>r. skip_fields (length tys) (Some line) = Some r \<and> (\<exists>c \<in> set r. \<not> isspace c)))"
  then have nb: "line \<in> set (non_blank (data_lines contents))" by (simp add: non_blank_def)
  from h have "length (split_on CHR '','' line) < length tys \<or> trailing_content (length tys) line"
    by (auto simp: trailing_content_def list_all_iff)
  then have "row_values L tys line = None" using row_values_None [of L tys line] by blast
  with nb have "parsed_rows L tys (data_lines contents) = None"
    using parsed_rows_None [of L tys "data_lines contents"] by blast
  with h show "try_read_from_csv L tys (Some contents) = Inl ParseError"
    by (simp add: try_read_from_csv_eq)
next
  assume h: "ColumnTypes result = tys \<and> length tys \<le> length (split_on CHR '','' line) \<and>
    (\<forall>i < length tys. \<exists>v. parse_value L (tys ! i) (split_on CHR '','' line ! i) = Inr v) \<and>
    (\<forall>r. skip_fields (length tys) (Some line) = Some r \<longrightarrow> (\<forall>c \<in> set r. isspace c))"
  then have "\<not> trailing_content (length tys) line"
    by (auto simp: trailing_content_def list_all_iff split: option.splits)
  moreover from h have "\<not> length (split_on CHR '','' line) < length tys" by simp
  moreover from h have "\<not> (\<exists>i < length tys. i < length (split_on CHR '','' line) \<and>
        parse_value L (tys ! i) (split_on CHR '','' line ! i) = Inl ParseError)"
    by fastforce
  ultimately have "row_values L tys line \<noteq> None" using row_values_None [of L tys line] by blast
  with h show "snd (parse_row L line result)" using parse_row_eq [of L line result] by simp
qed

text \<open>
  A short last line and a line with a third field \<open>3\<close> make the load fail; the line
  \<open>1,2, \<close> passes the row check.
\<close>

theorem bad_row_is_parse_error_witness:
  "\<not> header_bad [cpp_int, cpp_int] short_row_csv \<and> ''2'' \<in> set (data_lines short_row_csv) \<and>
   length (split_on CHR '','' ''2'') < length [cpp_int, cpp_int] \<and>
   try_read_from_csv plain_platform [cpp_int, cpp_int] (Some short_row_csv) = Inl ParseError \<and>
   \<not> header_bad [cpp_int, cpp_int] extra_field_csv \<and> ''1,10,3'' \<in> set (data_lines extra_field_csv) \<and>
   skip_fields (length [cpp_int, cpp_int]) (Some ''1,10,3'') = Some ''3'' \<and> \<not> isspace CHR ''3'' \<and>
   try_read_from_csv plain_platform [cpp_int, cpp_int] (Some extra_field_csv) = Inl ParseError \<and>
   snd (parse_row plain_platform ''1,2, '' (default_Columnar [cpp_int, cpp_int]))"
proof -
  have a1: "\<not> header_bad [cpp_int, cpp_int] short_row_csv" by code_simp
  have a2: "''2'' \<in> set (data_lines short_row_csv)" by code_simp
  have a3: "length (split_on CHR '','' ''2'') < length [cpp_int, cpp_int]" by simp
  have a4: "''2'' \<noteq> []" by simp
  from bad_row_is_parse_error [where tys = "[cpp_int, cpp_int]" and contents = short_row_csv
         and line = "''2''" and L = plain_platform] a1 a2 a3 a4
  have a: "try_read_from_csv plain_platform [cpp_int, cpp_int] (Some short_row_csv) = Inl ParseError"
    by blast
  have b1: "\<not> header_bad [cpp_int, cpp_int] extra_field_csv" by code_simp
  have b2: "''1,10,3'' \<in> set (data_lines extra_field_csv)" by code_simp
  have b3: "skip_fields (length [cpp_int, cpp_int]) (Some ''1,10,3'') = Some ''3''" by code_simp
  have b4: "\<not> isspace CHR ''3''" by code_simp
  have b5: "''1,10,3'' \<noteq> []" by simp
  from b3 b4 have b6: "\<exists>r. skip_fields (length [cpp_int, cpp_int]) (Some ''1,10,3'') = Some r \<and>
      (\<exists>c \<in> set r. \<not> isspace c)" by simp
  from bad_row_is_parse_error [where tys = "[cpp_int, cpp_int]" and contents = extra_field_csv
         and line = "''1,10,3''" and L = plain_platform] b1 b2 b5 b6
  have b: "try_read_from_csv plain_platform [cpp_int, cpp_int] (Some extra_field_csv) = Inl ParseError"
    by blast
  have c1: "ColumnTypes (default_Columnar [cpp_int, cpp_int] :: unit Columnar) = [cpp_int, cpp_int]"
    by (simp add: default_Columnar_def)
  have c2: "length [cpp_int, cpp_int] \<le> length (split_on CHR '','' ''1,2, '')" by simp
  have sp: "split_on CHR '','' ''1,2, '' = [''1'', ''2'', '' '']" by simp
  have p0: "parse_value plain_platform cpp_int ''1'' = Inr (IntV 1)" by code_simp
  have p1: "parse_value plain_platform cpp_int ''2'' = Inr (IntV 2)" by code_simp
  have c3: "\<forall>i < length [cpp_int, cpp_int].
      \<exists>v. parse_value plain_platform ([cpp_int, cpp_int] ! i) (split_on CHR '','' ''1,2, '' ! i) = Inr v"
    unfolding sp using p0 p1 by (auto simp: less_Suc_eq)
  have sk: "skip_fields (length [cpp_int, cpp_int]) (Some ''1,2, '') = Some '' ''" by code_simp
  have c4: "\<forall>r. skip_fields (length [cpp_int, cpp_int]) (Some ''1,2, '') = Some r \<longrightarrow>
      (\<forall>c \<in> set r. isspace c)"
    unfolding sk by (simp add: isspace_def)
  from bad_row_is_parse_error [where tys = "[cpp_int, cpp_int]" and line = "''1,2, ''"
         and L = plain_platform and result = "default_Columnar [cpp_int, cpp_int]"] c1 c2 c3 c4
  have c: "snd (parse_row plain_platform ''1,2, '' (default_Columnar [cpp_int, cpp_int]))"
    by blast
  from a1 a2 a3 a b1 b2 b3 b4 b c show ?thesis by blast
qed

subsection \<open>Floating-point fields\<close>

lemma string_at_c_str: "string_at (c_str str) = takeWhile (\<lambda>c. c \<noteq> CHR 0x00) str"
  by (induction str) (simp_all add: string_at_def c_str_def)

lemma c_str_at_end: "c_str str ! length (takeWhile (\<lambda>c. c \<noteq> CHR 0x00) str) = CHR 0x00"
  by (induction str) (simp_all add: c_str_def)

lemma c_str_before_end:
  "i < length (takeWhile (\<lambda>c. c \<noteq> CHR 0x00) str) \<Longrightarrow> c_str str ! i \<noteq> CHR 0x00"
proof (induction str arbitrary: i)
  case Nil
  then show ?case by simp
next
  case (Cons c cs)
  then show ?case by (cases i) (auto simp: c_str_def split: if_splits)
qed

lemma subject_form_nonempty: "subject_form s \<Longrightarrow> s \<noteq> []"
  by (auto simp: subject_form_def Let_def)

lemma strtod_end_le: "strtod_end s \<le> length s"
proof -
  let ?rest = "dropWhile isspace s"
  let ?cands = "filter (\<lambda>n. subject_form (take n ?rest)) (rev [1..<Suc (length ?rest)])"
  have len: "length (takeWhile isspace s) + length ?rest = length s"
    by (metis length_append takeWhile_dropWhile_id)
  show ?thesis
  proof (cases ?cands)
    case Nil
    then show ?thesis by (simp add: strtod_end_def)
  next
    case (Cons n ns)
    then have "n \<in> set ?cands" by simp
    then have "n \<le> length ?rest" by auto
    with Cons len show ?thesis by (simp add: strtod_end_def)
  qed
qed

lemma strtod_end_whole:
  "strtod_end s = length s \<and> strtod_end s \<noteq> 0 \<longleftrightarrow> subject_form (dropWhile isspace s)"
proof -
  let ?rest = "dropWhile isspace s"
  let ?P = "\<lambda>n. subject_form (take n ?rest)"
  let ?cands = "filter ?P (rev [1..<Suc (length ?rest)])"
  have len: "length (takeWhile isspace s) + length ?rest = length s"
    by (metis length_append takeWhile_dropWhile_id)
  show ?thesis
  proof
    assume sf: "subject_form ?rest"
    then have ne: "?rest \<noteq> []" by (rule subject_form_nonempty)
    then have "[1..<Suc (length ?rest)] = [1..<length ?rest] @ [length ?rest]"
      by (cases ?rest) simp_all
    then have "rev [1..<Suc (length ?rest)] = length ?rest # rev [1..<length ?rest]" by simp
    with sf have "?cands = length ?rest # filter ?P (rev [1..<length ?rest])" by simp
    then have "strtod_end s = length (takeWhile isspace s) + length ?rest"
      by (simp add: strtod_end_def)
    moreover from ne have "0 < length ?rest" by (simp del: dropWhile_eq_Nil_conv)
    ultimately show "strtod_end s = length s \<and> strtod_end s \<noteq> 0" using len by linarith
  next
    assume h: "strtod_end s = length s \<and> strtod_end s \<noteq> 0"
    show "subject_form ?rest"
    proof (cases ?cands)
      case Nil
      then have "strtod_end s = 0" by (simp add: strtod_end_def)
      with h show ?thesis by simp
    next
      case (Cons n ns)
      then have "n \<in> set ?cands" by simp
      then have n: "?P n" "n \<le> length ?rest" by auto
      from Cons have "strtod_end s = length (takeWhile isspace s) + n"
        by (simp add: strtod_end_def)
      with h len have "n = length ?rest" by simp
      with n(1) show ?thesis by simp
    qed
  qed
qed

lemma parse_value_floating_eq:
  "parse_value L (FloatingPoint ft) str =
     (if subject_form (dropWhile isspace (takeWhile (\<lambda>c. c \<noteq> CHR 0x00) str)) \<and>
         \<not> strto_erange L ft (c_str str)
      then Inr (FloatV (strto_value L ft (c_str str))) else Inl ParseError)"
proof -
  let ?cs = "takeWhile (\<lambda>c. c \<noteq> CHR 0x00) str"
  let ?e = "strtod_end ?cs"
  have le: "?e \<le> length ?cs" by (rule strtod_end_le)
  have "c_str str ! ?e = CHR 0x00 \<longleftrightarrow> ?e = length ?cs"
  proof (cases "?e = length ?cs")
    case True
    then show ?thesis using c_str_at_end [of str] by simp
  next
    case False
    with le have "?e < length ?cs" by simp
    from c_str_before_end [OF this] False show ?thesis by simp
  qed
  then have "(?e = 0 \<or> c_str str ! ?e \<noteq> CHR 0x00) \<longleftrightarrow> \<not> subject_form (dropWhile isspace ?cs)"
    using strtod_end_whole [of ?cs] by auto
  then show ?thesis by (simp add: Let_def string_at_c_str)
qed

lemma takeWhile_no_NUL: "CHR 0x00 \<notin> set str \<Longrightarrow> takeWhile (\<lambda>c. c \<noteq> CHR 0x00) str = str"
  by (induction str) auto

lemma decimal_len_pos:
  assumes "decimal_len s \<noteq> 0"
  shows "\<exists>c cs. s = c # cs \<and> (isdigit c \<or> c = CHR ''.'')"
proof (cases "takeWhile isdigit s = []")
  case False
  then obtain c cs where "s = c # cs" "isdigit c"
    by (cases s) (auto split: if_splits)
  then show ?thesis by blast
next
  case True
  then have dw: "dropWhile isdigit s = s"
    by (metis append_Nil takeWhile_dropWhile_id)
  from assms True dw have "\<exists>cs. s = CHR ''.'' # cs"
    by (cases s) (auto simp: decimal_len_def mantissa_len_def Let_def split: list.splits if_splits)
  then show ?thesis by blast
qed

lemma digit_not_space: "isdigit c \<or> c = CHR ''.'' \<or> c = CHR ''+'' \<or> c = CHR ''-'' \<Longrightarrow> \<not> isspace c"
  by (auto simp: isdigit_def isspace_def)

lemma decimal_numeral_subject:
  assumes "decimal_numeral s"
  shows "subject_form (dropWhile isspace s)"
proof -
  from assms have sf: "subject_form s" by (auto simp: decimal_numeral_def subject_form_def Let_def)
  have "\<exists>c cs. s = c # cs \<and> \<not> isspace c"
  proof (cases "sign_len s = 0")
    case True
    with assms have "decimal_len s \<noteq> 0" by (cases s) (auto simp: decimal_numeral_def Let_def)
    from decimal_len_pos [OF this] digit_not_space show ?thesis by blast
  next
    case False
    then obtain c cs where "s = c # cs" "c = CHR ''+'' \<or> c = CHR ''-''"
      by (cases s) (auto simp: sign_len_def split: if_splits)
    with digit_not_space show ?thesis by blast
  qed
  then have "dropWhile isspace s = s" by auto
  with sf show ?thesis by simp
qed

text \<open>
  C6, as stated, does not hold: the field \<open> 1.5\<close>, which starts with a space, is not a
  numeral spanning the whole field, and it is accepted, since \<open>strtod\<close> skips leading
  white space.
\<close>

theorem leading_space_field_is_accepted:
  "\<not> decimal_numeral '' 1.5'' \<and>
   parse_value plain_platform (FloatingPoint Double) '' 1.5'' = Inr (FloatV ()) \<and>
   try_read_from_csv plain_platform [FloatingPoint Double] (Some leading_space_csv) =
     Inr \<lparr>ColumnTypes = [FloatingPoint Double], columns = [[FloatV ()]],
          names = [''x''], row_count = 1\<rparr>"
  by code_simp

text \<open>
  C6, amended. A field without NUL bytes is accepted into a floating-point column
  exactly when, after its leading white space, it is from its first to its last
  character of the form \<open>strtod\<close> converts (an optionally signed decimal or scientific
  numeral, hexadecimal numeral, infinity or NaN) and the conversion does not raise
  \<open>ERANGE\<close>; every other field gives \<open>ParseError\<close>. So every decimal or scientific
  numeral that spans the whole field and is in range is accepted, and a field that the
  conversion does not consume to its end, or whose magnitude is out of range, is
  rejected, which makes the load fail with \<open>ParseError\<close>.
\<close>

theorem floating_field_acceptance:
  assumes "CHR 0x00 \<notin> set str"
  shows
   "parse_value L (FloatingPoint ft) str =
      (if subject_form (dropWhile isspace str) \<and> \<not> strto_erange L ft (c_str str)
       then Inr (FloatV (strto_value L ft (c_str str))) else Inl ParseError) \<and>
    (decimal_numeral str \<and> \<not> strto_erange L ft (c_str str) \<longrightarrow>
       parse_value L (FloatingPoint ft) str = Inr (FloatV (strto_value L ft (c_str str)))) \<and>
    (str = [] \<or> strtod_end str < length str \<or> strto_erange L ft (c_str str) \<longrightarrow>
       parse_value L (FloatingPoint ft) str = Inl ParseError) \<and>
    (\<not> header_bad tys contents \<and> line \<in> set (data_lines contents) \<and> line \<noteq> [] \<and>
     i < length tys \<and> i < length (split_on CHR '','' line) \<and> tys ! i = FloatingPoint ft \<and>
     split_on CHR '','' line ! i = str \<and> parse_value L (FloatingPoint ft) str = Inl ParseError
     \<longrightarrow> try_read_from_csv L tys (Some contents) = Inl ParseError)"
proof (intro conjI impI)
  have eq: "parse_value L (FloatingPoint ft) str =
      (if subject_form (dropWhile isspace str) \<and> \<not> strto_erange L ft (c_str str)
       then Inr (FloatV (strto_value L ft (c_str str))) else Inl ParseError)"
    using parse_value_floating_eq [of L ft str] by (simp only: takeWhile_no_NUL [OF assms])
  show "parse_value L (FloatingPoint ft) str =
      (if subject_form (dropWhile isspace str) \<and> \<not> strto_erange L ft (c_str str)
       then Inr (FloatV (strto_value L ft (c_str str))) else Inl ParseError)"
    by (rule eq)
  show "parse_value L (FloatingPoint ft) str = Inr (FloatV (strto_value L ft (c_str str)))"
    if "decimal_numeral str \<and> \<not> strto_erange L ft (c_str str)"
    using that decimal_numeral_subject [of str] unfolding eq by simp
  show "parse_value L (FloatingPoint ft) str = Inl ParseError"
    if h: "str = [] \<or> strtod_end str < length str \<or> strto_erange L ft (c_str str)"
  proof (cases "strto_erange L ft (c_str str)")
    case True
    then show ?thesis unfolding eq by simp
  next
    case False
    with h have "\<not> (strtod_end str = length str \<and> strtod_end str \<noteq> 0)" by auto
    then have "\<not> subject_form (dropWhile isspace str)"
      using strtod_end_whole [of str] by blast
    then show ?thesis unfolding eq by simp
  qed
  show "try_read_from_csv L tys (Some contents) = Inl ParseError"
    if h: "\<not> header_bad tys contents \<and> line \<in> set (data_lines contents) \<and> line \<noteq> [] \<and>
     i < length tys \<and> i < length (split_on CHR '','' line) \<and> tys ! i = FloatingPoint ft \<and>
     split_on CHR '','' line ! i = str \<and> parse_value L (FloatingPoint ft) str = Inl ParseError"
  proof -
    from h have "\<exists>i < length tys. i < length (split_on CHR '','' line) \<and>
        parse_value L (tys ! i) (split_on CHR '','' line ! i) = Inl ParseError"
      by auto
    then have "row_values L tys line = None" using row_values_None [of L tys line] by blast
    moreover from h have "line \<in> set (non_blank (data_lines contents))"
      by (simp add: non_blank_def)
    ultimately have "parsed_rows L tys (data_lines contents) = None"
      using parsed_rows_None [of L tys "data_lines contents"] by blast
    with h show ?thesis by (simp add: try_read_from_csv_eq)
  qed
qed

text \<open>
  The fields \<open>1.5\<close>, \<open>-2.5e3\<close> and \<open> 1.5\<close> are accepted; \<open>1.5x\<close> is not, nor is any
  field for which the library reports \<open>ERANGE\<close>.
\<close>

theorem floating_field_acceptance_witness:
  "CHR 0x00 \<notin> set ''-2.5e3'' \<and> decimal_numeral ''-2.5e3'' \<and>
   parse_value plain_platform (FloatingPoint Double) ''-2.5e3'' = Inr (FloatV ()) \<and>
   strtod_end ''1.5x'' < length ''1.5x'' \<and>
   parse_value plain_platform (FloatingPoint Double) ''1.5x'' = Inl ParseError \<and>
   parse_value (plain_platform\<lparr>strto_erange := \<lambda>ft str. True\<rparr>) (FloatingPoint Double) ''1e999''
     = Inl ParseError"
proof -
  have n1: "CHR 0x00 \<notin> set ''-2.5e3''" by simp
  have d1: "decimal_numeral ''-2.5e3''" by code_simp
  have e1: "\<not> strto_erange plain_platform Double (c_str ''-2.5e3'')" by (simp add: plain_platform_def)
  from floating_field_acceptance [OF n1, of plain_platform Double] d1 e1
  have a: "parse_value plain_platform (FloatingPoint Double) ''-2.5e3'' =
           Inr (FloatV (strto_value plain_platform Double (c_str ''-2.5e3'')))" by blast
  then have a': "parse_value plain_platform (FloatingPoint Double) ''-2.5e3'' = Inr (FloatV ())"
    by simp
  have n2: "CHR 0x00 \<notin> set ''1.5x''" by simp
  have s2: "strtod_end ''1.5x'' < length ''1.5x''" by code_simp
  from floating_field_acceptance [OF n2, of plain_platform Double] s2
  have b: "parse_value plain_platform (FloatingPoint Double) ''1.5x'' = Inl ParseError" by blast
  have n3: "CHR 0x00 \<notin> set ''1e999''" by simp
  have e3: "strto_erange (plain_platform\<lparr>strto_erange := \<lambda>ft str. True\<rparr>) Double (c_str ''1e999'')"
    by simp
  from floating_field_acceptance [OF n3, of "plain_platform\<lparr>strto_erange := \<lambda>ft str. True\<rparr>" Double] e3
  have c: "parse_value (plain_platform\<lparr>strto_erange := \<lambda>ft str. True\<rparr>) (FloatingPoint Double) ''1e999''
     = Inl ParseError" by blast
  from n1 d1 a' s2 b c show ?thesis by blast
qed

end
